theory Spec2Isabelle
  imports
    Complex_Main
    "HOL-Library.Word"
    "HOL-Library.Multiset"
    "HOL-Library.Char_ord"
    "HOL-Library.List_Lexorder"
begin

unbundle bit_operations_syntax

section \<open>The query manager of dcs-web (cmd/dcs-web/querymanager.go)\<close>

text \<open>
  The theory embeds the functions of \<^verbatim>\<open>querymanager.go\<close> that merge backend
  results, detect completion and persist the result pages, for one query: the global
  \<^verbatim>\<open>state[queryid]\<close> is the state value passed to and returned by every function.
  A runtime panic of the Go code (an index or a slice bound out of range) is the
  \<open>Inl\<close> branch of the result; an I/O error that the Go code returns as an
  \<^verbatim>\<open>error\<close> value is an \<open>ioerr\<close>.

  Conventions of the embedding:
  \<^item> \<^verbatim>\<open>float32\<close> rankings are rationals: comparisons are exact, and the one
    arithmetic expression (the combined ranking) is computed without rounding;
  \<^item> \<^verbatim>\<open>int\<close> counters received from a backend are 64-bit words, so sums wrap;
    lengths, offsets and page numbers, which are bounded by the data held in
    memory, are natural numbers;
  \<^item> a call of \<^verbatim>\<open>storeResult\<close> or \<^verbatim>\<open>storeProgress\<close> is one step: the workers of a query
    interleave call by call, and the mutexes are left out, as are the timestamps, the
    logging and the telemetry sinks (varz, InfluxDB), which have no effect on the
    values modelled;
  \<^item> the query directory exists, has room (\<^verbatim>\<open>ensureEnoughSpaceAvailable\<close> returns
    at once) and accepts every file name; the I/O errors that remain are the ones the
    program state decides: a temp file that was closed, a byte range that lies beyond
    the end of a temp file.
\<close>

subsection \<open>Data\<close>

type_synonym float32 = rat
type_synonym goint = "64 word"

text \<open>
  \<^verbatim>\<open>Result\<close>, with the fields of the embedded \<^verbatim>\<open>dcsregexp.Match\<close> that the
  query manager reads (\<^verbatim>\<open>Path\<close>, \<^verbatim>\<open>PathRank\<close>, \<^verbatim>\<open>Ranking\<close>); the match
  context is carried along by the Go code and never looked at.
\<close>

record Result =
  Type :: string
  Path :: string
  PathRank :: float32
  Ranking :: float32
  Package :: string
  FilesProcessed :: goint
  FilesTotal :: goint

text \<open>The zero value of \<^verbatim>\<open>Result\<close>: what an unused slot of the top-10 array holds.\<close>

definition zeroResult :: Result where
  "zeroResult = \<lparr>Type = [], Path = [], PathRank = 0, Ranking = 0, Package = [],
     FilesProcessed = 0, FilesTotal = 0\<rparr>"

record resultPointer =
  backendidx :: nat
  ranking :: float32
  offset :: nat
  lengthB :: nat
  pathHash :: "64 word"
  packageName :: string

text \<open>
  A temp file \<^verbatim>\<open>unsorted_<i>.json\<close>: whether its handle was closed, and how many
  bytes were appended. The handle is only appended to while it is open, so its current
  position is its size.
\<close>

record tempFile =
  closed :: bool
  fsize :: nat

text \<open>
  The events of a query. \<open>EndMarker\<close> is the empty-payload event that
  \<^verbatim>\<open>finishQuery\<close> adds.
\<close>

datatype event =
    ResultEvent Result
  | ProgressEvent string goint goint nat
  | PaginationEvent nat
  | ErrorEvent string
  | EndMarker

text \<open>
  The files of the query directory: \<^verbatim>\<open>packages.json\<close>, \<^verbatim>\<open>page_<n>.json\<close> and
  \<^verbatim>\<open>pkg_<name>.json\<close>. A file written by \<^verbatim>\<open>createFromPointers\<close> is the list of
  the byte ranges copied into it, one per entry, and whether the closing bracket was
  written. The directory is the list of the files created, the newest first.
\<close>

datatype fname = PackagesJson | Page nat | Pkg string

datatype fcontent =
    PackagesFile "string list"
  | PointerFile "resultPointer list" bool

text \<open>
  \<^verbatim>\<open>queryState\<close>. \<open>doneFlag\<close> is the field \<^verbatim>\<open>done\<close>; \<open>allPackages\<close>, a
  \<^verbatim>\<open>map[string]bool\<close> used as a set, is the list of its keys without repetition;
  \<open>dir\<close> is the query's directory on disk, which the Go code reaches by name.
\<close>

record queryState =
  events :: "event list"
  doneFlag :: bool
  results :: "Result list"
  filesTotal :: "goint list"
  filesProcessed :: "goint list"
  resultPages :: nat
  numResults :: nat
  tempFiles :: "tempFile list"
  resultPointers :: "resultPointer list"
  allPackages :: "string list"
  allPackagesSorted :: "string list"
  FirstPathRank :: float32
  dir :: "(fname \<times> fcontent) list"

datatype panic = IndexOutOfRange | SliceBoundsOutOfRange

datatype ioerr = ErrClosed | ErrUnexpectedEOF

text \<open>
  The state that \<^verbatim>\<open>maybeStartQuery\<close> builds for \<open>n\<close> backends: every total is the
  sentinel \<open>-1\<close>, every temp file is open and empty.
\<close>

definition newQueryState :: "nat \<Rightarrow> queryState" where
  "newQueryState n = \<lparr>events = [], doneFlag = False, results = replicate 10 zeroResult,
     filesTotal = replicate n (- 1), filesProcessed = replicate n 0,
     resultPages = 0, numResults = 0,
     tempFiles = replicate n \<lparr>closed = False, fsize = 0\<rparr>,
     resultPointers = [], allPackages = [], allPackagesSorted = [],
     FirstPathRank = 0, dir = []\<rparr>"

subsection \<open>Sorting\<close>

text \<open>
  \<^verbatim>\<open>sort.Sort\<close> of the Go library, on the \<^verbatim>\<open>Less\<close> of the interface: an
  insertion sort, which keeps the order of elements that \<^verbatim>\<open>Less\<close> does not separate.
\<close>

fun insertBy :: "('a \<Rightarrow> 'a \<Rightarrow> bool) \<Rightarrow> 'a \<Rightarrow> 'a list \<Rightarrow> 'a list" where
  "insertBy lt x [] = [x]"
| "insertBy lt x (y # ys) = (if lt y x then y # insertBy lt x ys else x # y # ys)"

definition sortBy :: "('a \<Rightarrow> 'a \<Rightarrow> bool) \<Rightarrow> 'a list \<Rightarrow> 'a list" where
  "sortBy lt xs = foldr (insertBy lt) xs []"

text \<open>\<^verbatim>\<open>ByRanking.Less\<close>: ranking descending, then path descending.\<close>

definition ByRanking_Less :: "Result \<Rightarrow> Result \<Rightarrow> bool" where
  "ByRanking_Less a b =
     (if Ranking a = Ranking b then Path a > Path b else Ranking a > Ranking b)"

text \<open>\<^verbatim>\<open>pointerByRanking.Less\<close>: ranking descending, then path hash descending.\<close>

definition pointerByRanking_Less :: "resultPointer \<Rightarrow> resultPointer \<Rightarrow> bool" where
  "pointerByRanking_Less a b =
     (if ranking a = ranking b then pathHash a > pathHash b else ranking a > ranking b)"

subsection \<open>Events and the end of a query\<close>

text \<open>
  Modelled from the spec: \<^verbatim>\<open>addEventMarshal\<close> is called by \<^verbatim>\<open>querymanager.go\<close> and
  defined in another file of the repository. The spec has an event appended to the
  query's ordered event log (section 4.8); the marks of superseded events, which only
  readers of the log use, are left out.
\<close>

definition addEventMarshal :: "event \<Rightarrow> queryState \<Rightarrow> queryState" where
  "addEventMarshal e s = s\<lparr>events := events s @ [e]\<rparr>"

text \<open>
  Modelled from the spec: \<^verbatim>\<open>addEvent\<close>, with the empty payload that \<^verbatim>\<open>finishQuery\<close>
  passes, is defined in another file of the repository. The spec has the empty-payload
  marker end the stream (section 4.8), and the query marked done when it is finished
  (sections 4.4 and 5); \<^verbatim>\<open>finishQuery\<close> itself does not assign \<^verbatim>\<open>done\<close>, so the
  marker is where the flag is set.
\<close>

definition addEvent_empty :: "queryState \<Rightarrow> queryState" where
  "addEvent_empty s = s\<lparr>events := events s @ [EndMarker], doneFlag := True\<rparr>"

definition finishQuery :: "queryState \<Rightarrow> queryState" where
  "finishQuery s =
     addEvent_empty (s\<lparr>tempFiles := map (\<lambda>f. f\<lparr>closed := True\<rparr>) (tempFiles s)\<rparr>)"

definition failQuery :: "queryState \<Rightarrow> queryState" where
  "failQuery s = finishQuery (addEventMarshal (ErrorEvent ''failed'') s)"

definition sendPaginationUpdate :: "queryState \<Rightarrow> queryState" where
  "sendPaginationUpdate s =
     (if resultPages s > 0 then addEventMarshal (PaginationEvent (resultPages s)) s else s)"

subsection \<open>storeResult\<close>

text \<open>\<^verbatim>\<open>strings.Index(s, "_")\<close> for a one-byte separator: \<open>-1\<close> when it is absent.\<close>

fun strings_Index :: "string \<Rightarrow> char \<Rightarrow> int" where
  "strings_Index [] c = - 1"
| "strings_Index (x # xs) c =
     (if x = c then 0
      else (let i = strings_Index xs c in if i < 0 then - 1 else i + 1))"

text \<open>\<^verbatim>\<open>fnv.New64()\<close> of the Go library: FNV-1, multiply and then xor, byte by byte.\<close>

definition fnv64 :: "string \<Rightarrow> 64 word" where
  "fnv64 p = foldl (\<lambda>h c. (h * 1099511628211) XOR of_nat (of_char c)) 14695981039346656037 p"

text \<open>
  The combined ranking, and the reference value that the call leaves in its local copy
  of the state.
\<close>

definition combine :: "queryState \<Rightarrow> Result \<Rightarrow> Result \<times> queryState" where
  "combine s result =
     (if FirstPathRank s > 0
      then (result\<lparr>Ranking := PathRank result + ((FirstPathRank s * (1 / 10)) * Ranking result)\<rparr>, s)
      else (result, s\<lparr>FirstPathRank := PathRank result\<rparr>))"

text \<open>
  The top-10 step. The local copy \<open>s\<close>, with the reference value, is written back to
  the global state only inside the branch that enters the result into the array.
\<close>

definition top10 :: "queryState \<Rightarrow> queryState \<Rightarrow> Result \<Rightarrow> queryState" where
  "top10 st s result =
     (let worst = results s ! 9 in
      if Ranking result > Ranking worst
      then addEventMarshal (ResultEvent result)
             (s\<lparr>results := take 10 (sortBy ByRanking_Less (results s @ [result]))\<rparr>)
      else st)"

text \<open>
  The spool step: the record is appended to the backend's temp file and a pointer to it
  to the pointer list. \<open>enc\<close> is the length of the JSON encoding of a result.
\<close>

definition spool :: "(Result \<Rightarrow> nat) \<Rightarrow> queryState \<Rightarrow> nat \<Rightarrow> Result \<Rightarrow> panic + queryState" where
  "spool enc st idx result =
     (if idx \<ge> length (tempFiles st) then Inl IndexOutOfRange
      else let f = tempFiles st ! idx in
        if closed f then Inr (failQuery st)
        else
          let tmpOffset = fsize f;
              offsetAfterWriting = fsize f + enc result;
              p = \<lparr>backendidx = idx, ranking = Ranking result, offset = tmpOffset,
                   lengthB = offsetAfterWriting - tmpOffset, pathHash = fnv64 (Path result),
                   packageName = Package result\<rparr>
          in Inr (st\<lparr>tempFiles := (tempFiles st)[idx := f\<lparr>fsize := offsetAfterWriting\<rparr>],
                     resultPointers := resultPointers st @ [p],
                     allPackages := (if Package result \<in> set (allPackages st)
                                     then allPackages st else allPackages st @ [Package result]),
                     numResults := numResults st + 1\<rparr>))"

definition storeResult :: "(Result \<Rightarrow> nat) \<Rightarrow> queryState \<Rightarrow> nat \<Rightarrow> Result \<Rightarrow> panic + queryState" where
  "storeResult enc st idx result0 =
     (let i = strings_Index (Path result0) (CHR ''_'') in
      if i < 0 then Inl SliceBoundsOutOfRange
      else
        let result1 = result0\<lparr>Type := ''result'', Package := take (nat i) (Path result0)\<rparr>;
            (result, s) = combine st result1
        in spool enc (top10 st s result) idx result)"

text \<open>A backend's results, stored one after the other.\<close>

fun storeResults :: "(Result \<Rightarrow> nat) \<Rightarrow> queryState \<Rightarrow> nat \<Rightarrow> Result list \<Rightarrow> panic + queryState" where
  "storeResults enc s idx [] = Inr s"
| "storeResults enc s idx (r # rs) =
     (case storeResult enc s idx r of Inl e \<Rightarrow> Inl e | Inr s' \<Rightarrow> storeResults enc s' idx rs)"

subsection \<open>writeToDisk\<close>

text \<open>
  The loop of \<^verbatim>\<open>createFromPointers\<close>: each pointer's byte range is copied from its
  backend's temp file. \<^verbatim>\<open>Seek\<close> fails on a closed file, \<^verbatim>\<open>io.CopyN\<close> on a range
  that ends beyond the file. The result is the ranges copied and the error, if any.
\<close>

fun copyPointers :: "tempFile list \<Rightarrow> resultPointer list \<Rightarrow> panic + (resultPointer list \<times> ioerr option)" where
  "copyPointers tfs [] = Inr ([], None)"
| "copyPointers tfs (p # ps) =
     (if backendidx p \<ge> length tfs then Inl IndexOutOfRange
      else let src = tfs ! backendidx p in
        if closed src then Inr ([], Some ErrClosed)
        else if offset p + lengthB p > fsize src then Inr ([], Some ErrUnexpectedEOF)
        else (case copyPointers tfs ps of
                Inl e \<Rightarrow> Inl e
              | Inr (copied, err) \<Rightarrow> Inr (p # copied, err)))"

definition createFromPointers :: "queryState \<Rightarrow> fname \<Rightarrow> resultPointer list \<Rightarrow> panic + (ioerr option \<times> queryState)" where
  "createFromPointers s name pointers =
     (case copyPointers (tempFiles s) pointers of
        Inl e \<Rightarrow> Inl e
      | Inr (copied, err) \<Rightarrow>
          Inr (err, s\<lparr>dir := (name, PointerFile copied (err = None)) # dir s\<rparr>))"

text \<open>
  The page count: \<^verbatim>\<open>int(math.Ceil(float64(len(pointers)) / float64(resultsPerPage)))\<close>,
  with the quotient computed exactly.
\<close>

definition resultsPerPage :: nat where
  "resultsPerPage = 10"

definition resultsPerPackage :: nat where
  "resultsPerPackage = 2"

definition packagesPerPage :: nat where
  "packagesPerPage = 5"

definition pageCount :: "nat \<Rightarrow> nat \<Rightarrow> nat" where
  "pageCount n per = nat \<lceil>(of_nat n :: rat) / of_nat per\<rceil>"

text \<open>
  The loop over the pages, from page \<open>page\<close> on; it stops at the first error. The
  slice \<^verbatim>\<open>pointers[start:end]\<close> panics when \<^verbatim>\<open>start\<close> exceeds \<^verbatim>\<open>end\<close>.
\<close>

function writePages :: "queryState \<Rightarrow> resultPointer list \<Rightarrow> nat \<Rightarrow> nat \<Rightarrow> panic + (ioerr option \<times> queryState)" where
  "writePages s pointers pages page =
     (if page < pages then
        (let start = page * resultsPerPage;
             end0 = (page + 1) * resultsPerPage;
             end1 = (if end0 > length pointers then length pointers else end0)
         in if start > end1 then Inl SliceBoundsOutOfRange
            else case createFromPointers s (Page page) (take (end1 - start) (drop start pointers)) of
                   Inl e \<Rightarrow> Inl e
                 | Inr (Some err, s') \<Rightarrow> Inr (Some err, s')
                 | Inr (None, s') \<Rightarrow> writePages s' pointers pages (page + 1))
      else Inr (None, s))"
  by pat_completeness auto
termination
  by (relation "measure (\<lambda>(s, pointers, pages, page). pages - page)") auto

text \<open>
  \<^verbatim>\<open>bypkg\<close>: the first \<^verbatim>\<open>resultsPerPackage\<close> pointers of every package, in the order
  of the sorted pointers. The Go map is an association list here, a package's entry
  standing where the package first occurs.
\<close>

fun bypkgAdd :: "resultPointer \<Rightarrow> (string \<times> resultPointer list) list \<Rightarrow> (string \<times> resultPointer list) list" where
  "bypkgAdd p [] = [(packageName p, [p])]"
| "bypkgAdd p ((k, v) # m) =
     (if k = packageName p
      then (if length v \<ge> resultsPerPackage then (k, v) # m else (k, v @ [p]) # m)
      else (k, v) # bypkgAdd p m)"

definition bypkgOf :: "resultPointer list \<Rightarrow> (string \<times> resultPointer list) list" where
  "bypkgOf pointers = foldl (\<lambda>m p. bypkgAdd p m) [] pointers"

text \<open>
  The loop over \<^verbatim>\<open>bypkg\<close>. Go leaves the order of the iteration open; the order only
  decides which files exist after an error.
\<close>

fun writePkgs :: "queryState \<Rightarrow> (string \<times> resultPointer list) list \<Rightarrow> panic + (ioerr option \<times> queryState)" where
  "writePkgs s [] = Inr (None, s)"
| "writePkgs s ((pkg, pkgresults) # m) =
     (case createFromPointers s (Pkg pkg) pkgresults of
        Inl e \<Rightarrow> Inl e
      | Inr (Some err, s') \<Rightarrow> Inr (Some err, s')
      | Inr (None, s') \<Rightarrow> writePkgs s' m)"

definition writeToDisk :: "queryState \<Rightarrow> panic + (ioerr option \<times> queryState)" where
  "writeToDisk s =
     (let pointers = resultPointers s in
      if length pointers = 0 then Inr (None, s)
      else
        let packages = allPackages s;
            s1 = s\<lparr>resultPointers := [], allPackagesSorted := packages\<rparr>;
            sorted = sortBy pointerByRanking_Less pointers;
            s2 = s1\<lparr>dir := (PackagesJson, PackagesFile packages) # dir s1\<rparr>;
            pages = pageCount (length sorted) resultsPerPage
        in case writePages s2 sorted pages 0 of
             Inl e \<Rightarrow> Inl e
           | Inr (Some err, s3) \<Rightarrow> Inr (Some err, s3)
           | Inr (None, s3) \<Rightarrow>
               (case writePkgs s3 (bypkgOf sorted) of
                  Inl e \<Rightarrow> Inl e
                | Inr (Some err, s4) \<Rightarrow> Inr (Some err, s4)
                | Inr (None, s4) \<Rightarrow>
                    Inr (None, sendPaginationUpdate (s4\<lparr>resultPages := pages\<rparr>))))"

subsection \<open>storeProgress\<close>

definition sumInts :: "goint list \<Rightarrow> goint" where
  "sumInts xs = foldl (+) 0 xs"

text \<open>
  The loop that looks for a missing total runs over \<^verbatim>\<open>len(backends)\<close> indices;
  \<^verbatim>\<open>maybeStartQuery\<close> made \<^verbatim>\<open>filesTotal\<close> of that length, from the same flag.
\<close>

definition allSet :: "queryState \<Rightarrow> bool" where
  "allSet s = list_all (\<lambda>t. t \<noteq> - 1) (filesTotal s)"

text \<open>The call of \<^verbatim>\<open>writeToDisk\<close> by \<^verbatim>\<open>storeProgress\<close>: an error fails the query.\<close>

definition persist :: "queryState \<Rightarrow> panic + queryState" where
  "persist s =
     (case writeToDisk s of
        Inl e \<Rightarrow> Inl e
      | Inr (Some err, s') \<Rightarrow> Inr (failQuery s')
      | Inr (None, s') \<Rightarrow> Inr s')"

definition storeProgress :: "queryState \<Rightarrow> nat \<Rightarrow> Result \<Rightarrow> panic + queryState" where
  "storeProgress st idx progress =
     (if idx \<ge> length (filesTotal st) then Inl IndexOutOfRange
      else
        let s1 = st\<lparr>filesTotal := (filesTotal st)[idx := FilesTotal progress]\<rparr>;
            allset = allSet s1
        in if idx \<ge> length (filesProcessed s1) then Inl IndexOutOfRange
           else
             let s2 = s1\<lparr>filesProcessed := (filesProcessed s1)[idx := FilesProcessed progress]\<rparr>;
                 processed = sumInts (filesProcessed s2);
                 total = sumInts (filesTotal s2)
             in case (if allset \<and> processed = total then persist s2 else Inr s2) of
                  Inl e \<Rightarrow> Inl e
                | Inr s3 \<Rightarrow>
                    Inr (if allset
                         then (let s4 = addEventMarshal
                                 (ProgressEvent (Type progress) processed total (numResults st)) s3
                               in if processed = total then finishQuery s4 else s4)
                         else s3))"

subsection \<open>queryBackend\<close>

text \<open>
  The deferred function of \<^verbatim>\<open>queryBackend\<close>, run on the state the worker exits with.
\<close>

definition queryBackend_exit :: "queryState \<Rightarrow> nat \<Rightarrow> panic + queryState" where
  "queryBackend_exit s idx =
     (if idx \<ge> length (filesTotal s) \<or> idx \<ge> length (filesProcessed s) then Inl IndexOutOfRange
      else
        let total = filesTotal s ! idx in
        if filesProcessed s ! idx = total then Inr s
        else
          let total' = (if total = - 1 then 0 else total) in
          case storeProgress s idx
                 (zeroResult\<lparr>Type := ''progress'', FilesProcessed := total', FilesTotal := total'\<rparr>) of
            Inl e \<Rightarrow> Inl e
          | Inr s' \<Rightarrow> Inr (addEventMarshal (ErrorEvent ''backendunavailable'') s'))"

text \<open>
  The receive loop, on the records that the decoder yields before the stream ends
  (by EOF, by the read timeout or by a decoding error). A record is \<^verbatim>\<open>r\<close> as it stands
  after \<^verbatim>\<open>Decode\<close>: its type is \<^verbatim>\<open>"result"\<close> unless the backend sent another.
\<close>

fun receive :: "(Result \<Rightarrow> nat) \<Rightarrow> queryState \<Rightarrow> nat \<Rightarrow> Result list \<Rightarrow> panic + queryState" where
  "receive enc s idx [] = Inr s"
| "receive enc s idx (r # rs) =
     (if doneFlag s then Inr s
      else if Type r = ''result'' then
        (case storeResult enc s idx r of Inl e \<Rightarrow> Inl e | Inr s' \<Rightarrow> receive enc s' idx rs)
      else if Type r = ''progress'' then
        (case storeProgress s idx r of Inl e \<Rightarrow> Inl e | Inr s' \<Rightarrow> receive enc s' idx rs)
      else receive enc s idx rs)"

text \<open>What the connection attempt of a worker comes to.\<close>

datatype conn = DialFailed | WriteFailed | Connected "Result list"

definition queryBackend :: "(Result \<Rightarrow> nat) \<Rightarrow> queryState \<Rightarrow> nat \<Rightarrow> conn \<Rightarrow> panic + queryState" where
  "queryBackend enc s idx c =
     (case (case c of Connected rs \<Rightarrow> receive enc s idx rs | _ \<Rightarrow> Inr s) of
        Inl e \<Rightarrow> Inl e
      | Inr s' \<Rightarrow> queryBackend_exit s' idx)"

subsection \<open>PerPackageResultsHandler\<close>

datatype response =
    NotFound string
  | InternalServerError string
  | OK "(string \<times> fcontent) list"

text \<open>
  The wait for the query: \<open>polls\<close> are the values of \<^verbatim>\<open>state[queryid]\<close> that the
  iterations of the loop see, one every 100 ms until 60 s have passed.
\<close>

fun awaitDone :: "queryState \<Rightarrow> queryState list \<Rightarrow> queryState" where
  "awaitDone s [] = s"
| "awaitDone s (p # ps) = (if doneFlag p then p else awaitDone s ps)"

text \<open>
  The loop over the packages of the page: each package's file is opened and copied into
  the reply, after the package's name. The page number is the decimal number of the
  request path; below the page count, the slice of the package list starts within the
  list.
\<close>

fun readPkgs :: "(fname \<times> fcontent) list \<Rightarrow> string list \<Rightarrow> string + (string \<times> fcontent) list" where
  "readPkgs d [] = Inr []"
| "readPkgs d (pkg # pkgs) =
     (case map_of d (Pkg pkg) of
        None \<Rightarrow> Inl (''Could not open pkg_'' @ pkg @ ''.json'')
      | Some c \<Rightarrow>
          (case readPkgs d pkgs of Inl e \<Rightarrow> Inl e | Inr es \<Rightarrow> Inr ((pkg, c) # es)))"

definition awaited :: "queryState \<Rightarrow> queryState list \<Rightarrow> queryState" where
  "awaited s0 polls = (if \<not> doneFlag s0 then awaitDone s0 polls else s0)"

text \<open>
  The handler from the lookup of the query on, for a page number that
  \<^verbatim>\<open>strconv.Atoi\<close> has converted.
\<close>

definition servePage :: "queryState option \<Rightarrow> queryState list \<Rightarrow> nat \<Rightarrow> response" where
  "servePage st polls pagenr =
     (case st of
        None \<Rightarrow> NotFound ''No such query.''
      | Some s0 \<Rightarrow>
          let s = awaited s0 polls in
          if \<not> doneFlag s then InternalServerError ''Query not finished yet.''
          else
            let pages = pageCount (length (allPackagesSorted s)) packagesPerPage in
            if pagenr \<ge> pages then NotFound ''No such page.''
            else
              let start = pagenr * packagesPerPage;
                  end0 = (pagenr + 1) * packagesPerPage;
                  end1 = (if end0 > length (allPackagesSorted s)
                          then length (allPackagesSorted s) else end0)
              in case readPkgs (dir s) (take (end1 - start) (drop start (allPackagesSorted s))) of
                   Inl e \<Rightarrow> InternalServerError e
                 | Inr es \<Rightarrow> OK es)"

text \<open>
  The handler, for a request path that matches \<^verbatim>\<open>perPackagePathRe\<close>: \<open>st\<close> is
  \<^verbatim>\<open>state[queryid]\<close> for the query of the path, if there is one, and \<open>pagenr\<close> the
  number that the digits of the path denote. \<^verbatim>\<open>strconv.Atoi\<close> fails on a number
  beyond the range of \<^verbatim>\<open>int\<close> (64 bits), and \<^verbatim>\<open>log.Fatal\<close> then ends the process,
  before the query is looked up and without a response.
\<close>

datatype fatal = LogFatal

definition maxInt :: nat where
  "maxInt = 2 ^ 63 - 1"

definition PerPackageResultsHandler :: "queryState option \<Rightarrow> queryState list \<Rightarrow> nat \<Rightarrow> fatal + response" where
  "PerPackageResultsHandler st polls pagenr =
     (if pagenr > maxInt then Inl LogFatal else Inr (servePage st polls pagenr))"

subsection \<open>The cancel request of QueryzHandler\<close>

definition cancelQuery :: "queryState \<Rightarrow> queryState" where
  "cancelQuery s = finishQuery (addEventMarshal (ErrorEvent ''cancelled'') s)"

subsection \<open>Notions used by the properties\<close>

text \<open>A pointer whose byte range can be copied: its temp file is open and holds the range.\<close>

definition readable :: "tempFile list \<Rightarrow> resultPointer \<Rightarrow> bool" where
  "readable tfs p \<longleftrightarrow>
     backendidx p < length tfs \<and> \<not> closed (tfs ! backendidx p) \<and>
     offset p + lengthB p \<le> fsize (tfs ! backendidx p)"

text \<open>The files created between a state and a later one, the newest first.\<close>

definition filesWritten :: "queryState \<Rightarrow> queryState \<Rightarrow> (fname \<times> fcontent) list" where
  "filesWritten s s' = take (length (dir s') - length (dir s)) (dir s')"

text \<open>The page files of a list of files, as page number and entries, and the files of a package.\<close>

fun pageFile :: "fname \<times> fcontent \<Rightarrow> (nat \<times> resultPointer list) list" where
  "pageFile (Page k, PointerFile es c) = [(k, es)]"
| "pageFile _ = []"

definition pageFiles :: "(fname \<times> fcontent) list \<Rightarrow> (nat \<times> resultPointer list) list" where
  "pageFiles d = concat (map pageFile d)"

definition pkgFilesOf :: "string \<Rightarrow> (fname \<times> fcontent) list \<Rightarrow> fcontent list" where
  "pkgFilesOf pkg d = map snd (filter (\<lambda>f. fst f = Pkg pkg) d)"

text \<open>The new events of a later state.\<close>

definition newEvents :: "queryState \<Rightarrow> queryState \<Rightarrow> event list" where
  "newEvents s s' = drop (length (events s)) (events s')"

text \<open>Records as a backend sends them, and an encoding length, for the examples.\<close>

definition aResult :: "string \<Rightarrow> float32 \<Rightarrow> float32 \<Rightarrow> Result" where
  "aResult p pre post = zeroResult\<lparr>Type := ''result'', Path := p, PathRank := pre, Ranking := post\<rparr>"

definition aProgress :: "goint \<Rightarrow> goint \<Rightarrow> Result" where
  "aProgress np nt =
     zeroResult\<lparr>Type := ''progress'', FilesProcessed := np, FilesTotal := nt\<rparr>"

definition encLen :: "Result \<Rightarrow> nat" where
  "encLen r = 100 + length (Path r)"

text \<open>The file of page \<open>n\<close> of a sorted pointer list, and the file of a package.\<close>

definition pageOf :: "resultPointer list \<Rightarrow> nat \<Rightarrow> fname \<times> fcontent" where
  "pageOf ptrs n = (Page n, PointerFile (take resultsPerPage (drop (n * resultsPerPage) ptrs)) True)"

definition pkgOf :: "string \<times> resultPointer list \<Rightarrow> fname \<times> fcontent" where
  "pkgOf kv = (Pkg (fst kv), PointerFile (snd kv) True)"

text \<open>
  The first \<^verbatim>\<open>resultsPerPackage\<close> pointers of a package in a pointer list, and the
  invariant of the loop that builds \<^verbatim>\<open>bypkg\<close>.
\<close>

definition bestOf :: "resultPointer list \<Rightarrow> string \<Rightarrow> resultPointer list" where
  "bestOf ps k = take resultsPerPackage (filter (\<lambda>p. packageName p = k) ps)"

definition bypkgInv :: "(string \<times> resultPointer list) list \<Rightarrow> resultPointer list \<Rightarrow> bool" where
  "bypkgInv m ps \<longleftrightarrow>
     distinct (map fst m) \<and> fst ` set m = packageName ` set ps \<and>
     (\<forall>k v. map_of m k = Some v \<longrightarrow> v = bestOf ps k)"

text \<open>
  A state for the examples: one backend whose temp file holds \<open>n\<close> records of 7 bytes,
  the record \<open>i\<close> of package \<open>a\<close> or \<open>b\<close> and ranked \<open>i\<close>, and nothing persisted yet.
\<close>

definition aPointer :: "nat \<Rightarrow> resultPointer" where
  "aPointer i = \<lparr>backendidx = 0, ranking = of_nat i, offset = i * 7, lengthB = 7,
     pathHash = of_nat i, packageName = (if even i then ''a'' else ''b'')\<rparr>"

definition spooled :: "nat \<Rightarrow> queryState" where
  "spooled n = (newQueryState 1)\<lparr>tempFiles := [\<lparr>closed = False, fsize = n * 7\<rparr>],
     resultPointers := map aPointer [0..<n], allPackages := [''a'', ''b''],
     numResults := n\<rparr>"

text \<open>
  A state for the examples: two backends, the second of which has reported 4 of 4
  files, the first nothing yet.
\<close>

definition oneReported :: queryState where
  "oneReported = (newQueryState 2)\<lparr>filesTotal := [- 1, 4], filesProcessed := [0, 4]\<rparr>"

text \<open>
  A cancelled query, for the examples: one backend stores one result, the query is
  cancelled, and the backend's worker, finding the query done, exits.
\<close>

definition afterOneResult :: queryState where
  "afterOneResult =
     projr (storeResult encLen (newQueryState 1) 0 (aResult ''pkgX_foo.c'' (4 / 5) (1 / 2)))"

definition afterCancel :: queryState where
  "afterCancel = projr (queryBackend encLen (cancelQuery afterOneResult) 0 (Connected []))"

text \<open>
  A completed query, for the examples: after its one result the backend reports 5 of 5
  files.
\<close>

definition afterCompletion :: queryState where
  "afterCompletion = projr (storeProgress afterOneResult 0 (aProgress 5 5))"

text \<open>
  The specification of the top-10 buffer: the first 10 of the results observed, sorted by
  \<^verbatim>\<open>ByRanking\<close>.
\<close>

definition bestTen :: "Result list \<Rightarrow> Result list" where
  "bestTen rs = take 10 (sortBy ByRanking_Less rs)"

text \<open>
  Eleven results of one backend, for the examples: with the reference value seeded by
  the first, each ends with the combined ranking 1; the last has the greatest path.
\<close>

definition elevenTied :: "Result list" where
  "elevenTied = aResult ''a_f'' 1 1 # replicate 9 (aResult ''a_f'' 1 0) @ [aResult ''b_f'' 1 0]"

text \<open>
  A cancelled query with two pages of results, for the examples: one backend stores the
  eleven results, the query is cancelled, and the backend's worker, finding the query
  done, exits.
\<close>

definition elevenStored :: queryState where
  "elevenStored = projr (storeResults encLen (newQueryState 1) 0 elevenTied)"

definition elevenCancelled :: queryState where
  "elevenCancelled = projr (queryBackend encLen (cancelQuery elevenStored) 0 (Connected []))"

section \<open>Properties\<close>

subsection \<open>Sorting\<close>

lemma mset_insertBy: "mset (insertBy lt x xs) = add_mset x (mset xs)"
  by (induction xs) auto

lemma mset_sortBy: "mset (sortBy lt xs) = mset xs"
  unfolding sortBy_def by (induction xs) (auto simp: mset_insertBy)

lemma set_sortBy: "set (sortBy lt xs) = set xs"
  using mset_sortBy [of lt xs] by (metis set_mset_mset)

lemma length_sortBy: "length (sortBy lt xs) = length xs"
  using mset_sortBy [of lt xs] by (metis size_mset)

lemma sorted_insertBy:
  assumes asym: "\<And>a b. lt a b \<Longrightarrow> \<not> lt b a"
    and trans: "\<And>a b c. \<not> lt b a \<Longrightarrow> \<not> lt c b \<Longrightarrow> \<not> lt c a"
    and srt: "sorted_wrt (\<lambda>a b. \<not> lt b a) xs"
  shows "sorted_wrt (\<lambda>a b. \<not> lt b a) (insertBy lt x xs)"
  using srt
proof (induction xs)
  case Nil
  then show ?case by simp
next
  case (Cons y ys)
  show ?case
  proof (cases "lt y x")
    case True
    have "\<forall>z \<in> set (insertBy lt x ys). \<not> lt z y"
    proof
      fix z assume "z \<in> set (insertBy lt x ys)"
      then have "z \<in># mset (insertBy lt x ys)" by simp
      then have "z = x \<or> z \<in> set ys" by (simp add: mset_insertBy)
      then show "\<not> lt z y" using True asym Cons.prems by auto
    qed
    then show ?thesis using True Cons by simp
  next
    case False
    have "\<forall>z \<in> set ys. \<not> lt z x"
      using False Cons.prems trans by auto
    then show ?thesis using False Cons.prems by simp
  qed
qed

lemma sorted_sortBy:
  assumes asym: "\<And>a b. lt a b \<Longrightarrow> \<not> lt b a"
    and trans: "\<And>a b c. \<not> lt b a \<Longrightarrow> \<not> lt c b \<Longrightarrow> \<not> lt c a"
  shows "sorted_wrt (\<lambda>a b. \<not> lt b a) (sortBy lt xs)"
  unfolding sortBy_def
proof (induction xs)
  case Nil
  then show ?case by simp
next
  case (Cons x xs)
  have "sorted_wrt (\<lambda>a b. \<not> lt b a) (insertBy lt x (foldr (insertBy lt) xs []))"
    by (rule sorted_insertBy [OF asym trans Cons.IH])
  then show ?case by simp
qed

lemma pointerByRanking_asym: "pointerByRanking_Less a b \<Longrightarrow> \<not> pointerByRanking_Less b a"
  by (auto simp: pointerByRanking_Less_def split: if_splits)

lemma pointerByRanking_trans:
  "\<not> pointerByRanking_Less b a \<Longrightarrow> \<not> pointerByRanking_Less c b \<Longrightarrow> \<not> pointerByRanking_Less c a"
  by (auto simp: pointerByRanking_Less_def split: if_splits)

lemma sorted_pointers:
  "sorted_wrt (\<lambda>a b. \<not> pointerByRanking_Less b a) (sortBy pointerByRanking_Less ps)"
  by (rule sorted_sortBy) (auto dest: pointerByRanking_asym pointerByRanking_trans)

subsection \<open>The package name of a result\<close>

lemma strings_Index_absent: "c \<notin> set p \<Longrightarrow> strings_Index p c = - 1"
  by (induction p) auto

lemma strings_Index_present:
  "c \<in> set p \<Longrightarrow> strings_Index p c = int (length (takeWhile (\<lambda>x. x \<noteq> c) p))"
  by (induction p) (auto simp: Let_def strings_Index_absent)

lemma strings_Index_neg: "strings_Index p c < 0 \<longleftrightarrow> c \<notin> set p"
proof (cases "c \<in> set p")
  case True
  then show ?thesis by (simp add: strings_Index_present)
next
  case False
  then show ?thesis by (simp add: strings_Index_absent)
qed

lemma take_Index:
  "c \<in> set p \<Longrightarrow> take (nat (strings_Index p c)) p = takeWhile (\<lambda>x. x \<noteq> c) p"
  using takeWhile_eq_take [of "\<lambda>x. x \<noteq> c" p] by (simp add: strings_Index_present)

lemma tempFiles_top10 [simp]:
  "tempFiles (top10 st (snd (combine st r)) r') = tempFiles st"
  by (simp add: top10_def combine_def addEventMarshal_def Let_def)

lemma resultPointers_top10 [simp]:
  "resultPointers (top10 st (snd (combine st r)) r') = resultPointers st"
  by (simp add: top10_def combine_def addEventMarshal_def Let_def)

lemma allPackages_top10 [simp]:
  "allPackages (top10 st (snd (combine st r)) r') = allPackages st"
  by (simp add: top10_def combine_def addEventMarshal_def Let_def)

lemma Package_combine [simp]: "Package (fst (combine st r)) = Package r"
  by (simp add: combine_def)

lemma Path_combine [simp]: "Path (fst (combine st r)) = Path r"
  by (simp add: combine_def)

lemma storeResult_unfold:
  "storeResult enc st idx r =
     (if strings_Index (Path r) (CHR ''_'') < 0 then Inl SliceBoundsOutOfRange
      else let r1 = r\<lparr>Type := ''result'',
                       Package := take (nat (strings_Index (Path r) (CHR ''_''))) (Path r)\<rparr>
           in spool enc (top10 st (snd (combine st r1)) (fst (combine st r1))) idx
                (fst (combine st r1)))"
  by (simp add: storeResult_def Let_def split_beta)

text \<open>
  Claim C10. \<^verbatim>\<open>storeResult\<close> panics on the slice \<^verbatim>\<open>result.Path[:strings.Index(...)]\<close>
  exactly when the path has no underscore: the index is then \<open>-1\<close>. When the path has
  one and the backend index is in range, the call returns, and the package name it
  stores with the pointer and in the package set (when the temp file is open) is the
  path up to its first underscore.
\<close>

theorem storeResult_package:
  "(storeResult enc s idx r = Inl SliceBoundsOutOfRange \<longleftrightarrow> CHR ''_'' \<notin> set (Path r)) \<and>
   (CHR ''_'' \<notin> set (Path r) \<longrightarrow> strings_Index (Path r) (CHR ''_'') = - 1) \<and>
   (CHR ''_'' \<in> set (Path r) \<and> idx < length (tempFiles s) \<longrightarrow>
      (\<exists>s'. storeResult enc s idx r = Inr s' \<and>
         (\<not> closed (tempFiles s ! idx) \<longrightarrow>
            packageName (last (resultPointers s')) = takeWhile (\<lambda>c. c \<noteq> CHR ''_'') (Path r) \<and>
            takeWhile (\<lambda>c. c \<noteq> CHR ''_'') (Path r) \<in> set (allPackages s'))))"
proof (intro conjI impI)
  show "storeResult enc s idx r = Inl SliceBoundsOutOfRange \<longleftrightarrow> CHR ''_'' \<notin> set (Path r)"
    by (auto simp: storeResult_unfold strings_Index_neg spool_def Let_def)
next
  assume "CHR ''_'' \<notin> set (Path r)"
  then show "strings_Index (Path r) (CHR ''_'') = - 1" by (rule strings_Index_absent)
next
  assume a: "CHR ''_'' \<in> set (Path r) \<and> idx < length (tempFiles s)"
  then show "\<exists>s'. storeResult enc s idx r = Inr s' \<and>
         (\<not> closed (tempFiles s ! idx) \<longrightarrow>
            packageName (last (resultPointers s')) = takeWhile (\<lambda>c. c \<noteq> CHR ''_'') (Path r) \<and>
            takeWhile (\<lambda>c. c \<noteq> CHR ''_'') (Path r) \<in> set (allPackages s'))"
    by (simp add: storeResult_unfold strings_Index_neg spool_def Let_def take_Index)
qed

theorem storeResult_package_witness:
  "storeResult encLen (newQueryState 1) 0 (aResult ''README'' (4 / 5) (1 / 2)) =
     Inl SliceBoundsOutOfRange \<and>
   strings_Index ''README'' (CHR ''_'') = - 1 \<and>
   (\<exists>s'. storeResult encLen (newQueryState 1) 0 (aResult ''pkgX_foo.c'' (4 / 5) (1 / 2)) = Inr s' \<and>
      packageName (last (resultPointers s')) = ''pkgX'' \<and> ''pkgX'' \<in> set (allPackages s'))"
  using storeResult_package [of encLen "newQueryState 1" 0 "aResult ''README'' (4 / 5) (1 / 2)"]
    storeResult_package [of encLen "newQueryState 1" 0 "aResult ''pkgX_foo.c'' (4 / 5) (1 / 2)"]
  by (simp add: aResult_def newQueryState_def)

subsection \<open>Writing the files\<close>

declare writePages.simps [simp del]

lemma pageCount_div: "pageCount n 10 = (n + 9) div 10"
proof -
  have "\<lceil>(of_nat n :: rat) / of_nat 10\<rceil> = - (- int n div int 10)"
    using ceiling_divide_eq_div [of "int n" "int 10", where ?'a = rat] by simp
  then show ?thesis unfolding pageCount_def by simp
qed

lemma pageCount_5: "pageCount n 5 = (n + 4) div 5"
proof -
  have "\<lceil>(of_nat n :: rat) / of_nat 5\<rceil> = - (- int n div int 5)"
    using ceiling_divide_eq_div [of "int n" "int 5", where ?'a = rat] by simp
  then show ?thesis unfolding pageCount_def by simp
qed

lemma copyPointers_readable:
  "list_all (readable tfs) ps \<Longrightarrow> copyPointers tfs ps = Inr (ps, None)"
  by (induction ps) (auto simp: readable_def Let_def)

lemma copyPointers_total:
  "\<forall>p \<in> set ps. backendidx p < length tfs \<Longrightarrow> \<exists>c e. copyPointers tfs ps = Inr (c, e)"
  by (induction ps) (auto simp: Let_def split: sum.splits)

lemma createFromPointers_readable:
  "list_all (readable (tempFiles s)) ps \<Longrightarrow>
   createFromPointers s name ps = Inr (None, s\<lparr>dir := (name, PointerFile ps True) # dir s\<rparr>)"
  by (simp add: createFromPointers_def copyPointers_readable)

lemma createFromPointers_total:
  "\<forall>p \<in> set ps. backendidx p < length (tempFiles s) \<Longrightarrow>
   \<exists>e d. createFromPointers s name ps = Inr (e, s\<lparr>dir := d\<rparr>)"
  using copyPointers_total [of ps "tempFiles s"]
  by (auto simp: createFromPointers_def)

lemma readable_slice:
  "list_all (readable tfs) ptrs \<Longrightarrow> list_all (readable tfs) (take n (drop m ptrs))"
  by (auto simp: list_all_iff dest: in_set_takeD in_set_dropD)

lemma take10_drop: "length ptrs < 10 + m \<Longrightarrow> take 10 (drop m ptrs) = drop m ptrs"
  by simp

lemma writePages_stop: "\<not> page < pages \<Longrightarrow> writePages s ptrs pages page = Inr (None, s)"
  by (subst writePages.simps) simp

lemma writePages_step:
  assumes "page < pages" and "page * 10 \<le> length ptrs"
  shows "writePages s ptrs pages page =
           (case createFromPointers s (Page page) (take 10 (drop (page * 10) ptrs)) of
              Inl e \<Rightarrow> Inl e
            | Inr (Some err, s') \<Rightarrow> Inr (Some err, s')
            | Inr (None, s') \<Rightarrow> writePages s' ptrs pages (page + 1))"
  apply (subst writePages.simps)
  using assms apply (simp add: Let_def resultsPerPage_def take10_drop)
  done

lemma page_bound:
  assumes "page < pages" and "(pages - 1) * 10 \<le> length (ptrs :: 'a list)"
  shows "page * 10 \<le> length ptrs"
proof -
  have "page \<le> pages - 1" using assms(1) by simp
  then have "page * 10 \<le> (pages - 1) * 10" by simp
  then show ?thesis using assms(2) by simp
qed

lemma writePages_readable:
  assumes "list_all (readable (tempFiles s)) ptrs" and "(pages - 1) * 10 \<le> length ptrs"
  shows "writePages s ptrs pages page =
           Inr (None, s\<lparr>dir := rev (map (pageOf ptrs) [page..<pages]) @ dir s\<rparr>)"
  using assms
proof (induction "pages - page" arbitrary: s page)
  case 0
  then have "\<not> page < pages" by simp
  then show ?case by (simp add: writePages_stop)
next
  case (Suc k)
  then have lt: "page < pages" by simp
  let ?slice = "take 10 (drop (page * 10) ptrs)"
  let ?s' = "s\<lparr>dir := (Page page, PointerFile ?slice True) # dir s\<rparr>"
  have bound: "page * 10 \<le> length ptrs"
    using lt Suc.prems(2) by (rule page_bound)
  have cr: "createFromPointers s (Page page) ?slice = Inr (None, ?s')"
    by (rule createFromPointers_readable) (rule readable_slice [OF Suc.prems(1)])
  have ih: "writePages ?s' ptrs pages (page + 1) =
              Inr (None, ?s'\<lparr>dir := rev (map (pageOf ptrs) [page + 1..<pages]) @ dir ?s'\<rparr>)"
    using Suc.hyps(2) Suc.prems by (intro Suc.hyps(1)) auto
  have upt: "[page..<pages] = page # [page + 1..<pages]"
    using lt by (simp add: upt_conv_Cons)
  have "writePages s ptrs pages page = writePages ?s' ptrs pages (page + 1)"
    by (simp add: writePages_step [OF lt bound] cr)
  also have "\<dots> = Inr (None, s\<lparr>dir := rev (map (pageOf ptrs) [page..<pages]) @ dir s\<rparr>)"
    unfolding ih upt by (simp add: pageOf_def resultsPerPage_def)
  finally show ?case .
qed

lemma writePages_total:
  assumes "\<forall>p \<in> set ptrs. backendidx p < length (tempFiles s)" and "(pages - 1) * 10 \<le> length ptrs"
  shows "\<exists>e d. writePages s ptrs pages page = Inr (e, s\<lparr>dir := d\<rparr>)"
  using assms
proof (induction "pages - page" arbitrary: s page)
  case 0
  then have "\<not> page < pages" by simp
  then have "writePages s ptrs pages page = Inr (None, s\<lparr>dir := dir s\<rparr>)"
    by (simp add: writePages_stop)
  then show ?case by blast
next
  case (Suc k)
  then have lt: "page < pages" by simp
  let ?slice = "take 10 (drop (page * 10) ptrs)"
  have bound: "page * 10 \<le> length ptrs"
    using lt Suc.prems(2) by (rule page_bound)
  have "\<forall>p \<in> set ?slice. backendidx p < length (tempFiles s)"
    using Suc.prems(1) by (auto dest: in_set_takeD in_set_dropD)
  then obtain e d where cr: "createFromPointers s (Page page) ?slice = Inr (e, s\<lparr>dir := d\<rparr>)"
    using createFromPointers_total by blast
  show ?case
  proof (cases e)
    case (Some err)
    have "writePages s ptrs pages page = Inr (Some err, s\<lparr>dir := d\<rparr>)"
      by (simp add: writePages_step [OF lt bound] cr Some)
    then show ?thesis by blast
  next
    case None
    have "\<exists>e' d'. writePages (s\<lparr>dir := d\<rparr>) ptrs pages (page + 1) = Inr (e', s\<lparr>dir := d\<rparr>\<lparr>dir := d'\<rparr>)"
      using Suc.hyps(2) Suc.prems by (intro Suc.hyps(1)) auto
    then obtain e' d' where ih: "writePages (s\<lparr>dir := d\<rparr>) ptrs pages (page + 1) = Inr (e', s\<lparr>dir := d'\<rparr>)"
      by auto
    have "writePages s ptrs pages page = Inr (e', s\<lparr>dir := d'\<rparr>)"
      using ih by (simp add: writePages_step [OF lt bound] cr None)
    then show ?thesis by blast
  qed
qed

lemma writePkgs_readable:
  "\<forall>kv \<in> set m. list_all (readable (tempFiles s)) (snd kv) \<Longrightarrow>
   writePkgs s m = Inr (None, s\<lparr>dir := rev (map pkgOf m) @ dir s\<rparr>)"
proof (induction m arbitrary: s)
  case Nil
  then show ?case by simp
next
  case (Cons kv m)
  obtain k v where kv: "kv = (k, v)" by (cases kv)
  let ?s' = "s\<lparr>dir := (Pkg k, PointerFile v True) # dir s\<rparr>"
  have cr: "createFromPointers s (Pkg k) v = Inr (None, ?s')"
    using Cons.prems kv by (intro createFromPointers_readable) simp
  have "writePkgs ?s' m = Inr (None, ?s'\<lparr>dir := rev (map pkgOf m) @ dir ?s'\<rparr>)"
    using Cons.prems by (intro Cons.IH) simp
  then show ?case using cr kv by (simp add: pkgOf_def)
qed

lemma writePkgs_total:
  "\<forall>kv \<in> set m. \<forall>p \<in> set (snd kv). backendidx p < length (tempFiles s) \<Longrightarrow>
   \<exists>e d. writePkgs s m = Inr (e, s\<lparr>dir := d\<rparr>)"
proof (induction m arbitrary: s)
  case Nil
  have "writePkgs s [] = Inr (None, s\<lparr>dir := dir s\<rparr>)" by simp
  then show ?case by blast
next
  case (Cons kv m)
  obtain k v where kv: "kv = (k, v)" by (cases kv)
  have "\<forall>p \<in> set v. backendidx p < length (tempFiles s)" using Cons.prems kv by simp
  then obtain e d where cr: "createFromPointers s (Pkg k) v = Inr (e, s\<lparr>dir := d\<rparr>)"
    using createFromPointers_total by blast
  show ?case
  proof (cases e)
    case (Some err)
    then have "writePkgs s (kv # m) = Inr (Some err, s\<lparr>dir := d\<rparr>)" using cr kv by simp
    then show ?thesis by blast
  next
    case None
    have "\<exists>e' d'. writePkgs (s\<lparr>dir := d\<rparr>) m = Inr (e', s\<lparr>dir := d\<rparr>\<lparr>dir := d'\<rparr>)"
      using Cons.prems by (intro Cons.IH) simp
    then obtain e' d' where "writePkgs (s\<lparr>dir := d\<rparr>) m = Inr (e', s\<lparr>dir := d'\<rparr>)" by auto
    then have "writePkgs s (kv # m) = Inr (e', s\<lparr>dir := d'\<rparr>)" using cr kv None by simp
    then show ?thesis by blast
  qed
qed

lemma bypkgAdd_keys:
  "map fst (bypkgAdd p m) =
     (if packageName p \<in> fst ` set m then map fst m else map fst m @ [packageName p])"
  by (induction m) (auto split: if_splits)

lemma bypkgAdd_map_of:
  "map_of (bypkgAdd p m) k =
     (if k = packageName p
      then (case map_of m k of
              None \<Rightarrow> Some [p]
            | Some v \<Rightarrow> Some (if length v \<ge> resultsPerPackage then v else v @ [p]))
      else map_of m k)"
  by (induction m) (auto split: if_splits)

lemma bestOf_snoc:
  "bestOf (ps @ [p]) k =
     (if k = packageName p
      then (if length (bestOf ps k) \<ge> resultsPerPackage then bestOf ps k else bestOf ps k @ [p])
      else bestOf ps k)"
  by (auto simp: bestOf_def resultsPerPackage_def)

lemma bestOf_Nil_iff: "bestOf ps k = [] \<longleftrightarrow> k \<notin> packageName ` set ps"
  by (auto simp: bestOf_def resultsPerPackage_def filter_empty_conv)

lemma bypkgInv_step:
  assumes "bypkgInv m ps"
  shows "bypkgInv (bypkgAdd p m) (ps @ [p])"
proof -
  have d: "distinct (map fst m)" and keys: "fst ` set m = packageName ` set ps"
    and vals: "\<And>k v. map_of m k = Some v \<Longrightarrow> v = bestOf ps k"
    using assms by (auto simp: bypkgInv_def)
  have d': "distinct (map fst (bypkgAdd p m))"
    using d by (auto simp: bypkgAdd_keys)
  have "set (map fst (bypkgAdd p m)) = insert (packageName p) (fst ` set m)"
    by (auto simp: bypkgAdd_keys)
  then have keys': "fst ` set (bypkgAdd p m) = packageName ` set (ps @ [p])"
    using keys by auto
  have vals': "v = bestOf (ps @ [p]) k" if "map_of (bypkgAdd p m) k = Some v" for k v
  proof (cases "k = packageName p")
    case False
    then show ?thesis using that vals by (simp add: bypkgAdd_map_of bestOf_snoc)
  next
    case True
    show ?thesis
    proof (cases "map_of m k")
      case None
      then have "k \<notin> fst ` set m" by (simp add: map_of_eq_None_iff)
      then have e: "bestOf ps k = []" using keys by (simp add: bestOf_Nil_iff)
      have "v = [p]" using that True None by (simp add: bypkgAdd_map_of)
      moreover have "bestOf (ps @ [p]) k = [p]"
        using True e by (simp add: bestOf_snoc resultsPerPackage_def)
      ultimately show ?thesis by simp
    next
      case (Some w)
      then have "w = bestOf ps k" by (rule vals)
      then show ?thesis using that True Some
        by (auto simp: bypkgAdd_map_of bestOf_snoc split: if_splits)
    qed
  qed
  show ?thesis unfolding bypkgInv_def using d' keys' vals' by blast
qed

lemma bypkgInv_foldl:
  "bypkgInv m ps0 \<Longrightarrow> bypkgInv (foldl (\<lambda>m p. bypkgAdd p m) m ps) (ps0 @ ps)"
proof (induction ps arbitrary: m ps0)
  case Nil
  then show ?case by simp
next
  case (Cons p ps)
  have "bypkgInv (foldl (\<lambda>m p. bypkgAdd p m) (bypkgAdd p m) ps) ((ps0 @ [p]) @ ps)"
    by (rule Cons.IH) (rule bypkgInv_step [OF Cons.prems])
  then show ?case by simp
qed

lemma bypkgInv_bypkgOf: "bypkgInv (bypkgOf ps) ps"
  using bypkgInv_foldl [of "[]" "[]" ps] by (simp add: bypkgOf_def bypkgInv_def)

lemma bypkgOf_entry:
  assumes "kv \<in> set (bypkgOf ps)"
  shows "snd kv = bestOf ps (fst kv)"
proof -
  have inv: "bypkgInv (bypkgOf ps) ps" by (rule bypkgInv_bypkgOf)
  obtain k v where kv: "kv = (k, v)" by (cases kv)
  have "map_of (bypkgOf ps) k = Some v"
    using assms kv inv by (simp add: bypkgInv_def)
  then show ?thesis using inv kv by (simp add: bypkgInv_def)
qed

lemma set_bestOf: "set (bestOf ps k) \<subseteq> set ps"
  by (auto simp: bestOf_def dest: in_set_takeD)

lemma filter_key:
  "distinct (map fst m) \<Longrightarrow> (k, v) \<in> set m \<Longrightarrow> filter (\<lambda>kv. fst kv = k) m = [(k, v)]"
proof (induction m)
  case Nil
  then show ?case by simp
next
  case (Cons a m)
  show ?case
  proof (cases "fst a = k")
    case True
    then have "k \<notin> fst ` set m" using Cons.prems(1) by auto
    then have "filter (\<lambda>kv. fst kv = k) m = []"
      by (auto simp: filter_empty_conv)
    moreover have "a = (k, v)"
      using Cons.prems True \<open>k \<notin> fst ` set m\<close> by (cases a) force
    ultimately show ?thesis by simp
  next
    case False
    then show ?thesis using Cons by auto
  qed
qed

lemma bypkgOf_files:
  assumes "k \<in> packageName ` set ps"
  shows "filter (\<lambda>kv. fst kv = k) (bypkgOf ps) = [(k, bestOf ps k)]"
proof -
  have inv: "bypkgInv (bypkgOf ps) ps" by (rule bypkgInv_bypkgOf)
  then have "k \<in> fst ` set (bypkgOf ps)" using assms by (simp add: bypkgInv_def)
  then obtain v where in_m: "(k, v) \<in> set (bypkgOf ps)" by force
  then have "v = bestOf ps k" using bypkgOf_entry by force
  then show ?thesis using filter_key [OF _ in_m] inv by (simp add: bypkgInv_def)
qed

lemma dir_sendPaginationUpdate [simp]: "dir (sendPaginationUpdate s) = dir s"
  by (simp add: sendPaginationUpdate_def addEventMarshal_def)

lemma pages_bound: "(pageCount n 10 - 1) * 10 \<le> n"
  unfolding pageCount_div by presburger

lemma readable_bypkgOf:
  assumes "list_all (readable tfs) ps"
  shows "\<forall>kv \<in> set (bypkgOf ps). list_all (readable tfs) (snd kv)"
proof
  fix kv assume "kv \<in> set (bypkgOf ps)"
  then have "snd kv = bestOf ps (fst kv)" by (rule bypkgOf_entry)
  then show "list_all (readable tfs) (snd kv)"
    using assms set_bestOf [of ps "fst kv"] by (auto simp: list_all_iff)
qed

lemma writeToDisk_success:
  assumes ne: "resultPointers s \<noteq> []"
    and rd: "list_all (readable (tempFiles s)) (resultPointers s)"
  shows "writeToDisk s =
           Inr (None, sendPaginationUpdate
             (s\<lparr>resultPointers := [], allPackagesSorted := allPackages s,
                dir := rev (map pkgOf (bypkgOf (sortBy pointerByRanking_Less (resultPointers s)))) @
                       rev (map (pageOf (sortBy pointerByRanking_Less (resultPointers s)))
                              [0..<pageCount (length (resultPointers s)) resultsPerPage]) @
                       (PackagesJson, PackagesFile (allPackages s)) # dir s,
                resultPages := pageCount (length (resultPointers s)) resultsPerPage\<rparr>))"
proof -
  define sorted where "sorted = sortBy pointerByRanking_Less (resultPointers s)"
  define pages where "pages = pageCount (length sorted) resultsPerPage"
  define s2 where "s2 = s\<lparr>resultPointers := [], allPackagesSorted := allPackages s\<rparr>
                         \<lparr>dir := (PackagesJson, PackagesFile (allPackages s)) #
                            dir (s\<lparr>resultPointers := [], allPackagesSorted := allPackages s\<rparr>)\<rparr>"
  define s3 where "s3 = s2\<lparr>dir := rev (map (pageOf sorted) [0..<pages]) @ dir s2\<rparr>"
  define s4 where "s4 = s3\<lparr>dir := rev (map pkgOf (bypkgOf sorted)) @ dir s3\<rparr>"
  have tf2: "tempFiles s2 = tempFiles s" by (simp add: s2_def)
  have tf3: "tempFiles s3 = tempFiles s" by (simp add: s3_def tf2)
  have rs: "list_all (readable (tempFiles s)) sorted"
    using rd by (simp add: list_all_iff set_sortBy sorted_def)
  have b: "(pages - 1) * 10 \<le> length sorted"
    unfolding pages_def resultsPerPage_def by (rule pages_bound)
  have wp: "writePages s2 sorted pages 0 = Inr (None, s3)"
    unfolding s3_def by (rule writePages_readable [OF _ b]) (simp add: tf2 rs)
  have wk: "writePkgs s3 (bypkgOf sorted) = Inr (None, s4)"
    unfolding s4_def by (rule writePkgs_readable) (simp add: tf3 readable_bypkgOf [OF rs])
  have unf: "writeToDisk s =
      (case writePages s2 sorted pages 0 of
         Inl e \<Rightarrow> Inl e
       | Inr (Some err, s3) \<Rightarrow> Inr (Some err, s3)
       | Inr (None, s3) \<Rightarrow>
           (case writePkgs s3 (bypkgOf sorted) of
              Inl e \<Rightarrow> Inl e
            | Inr (Some err, s4) \<Rightarrow> Inr (Some err, s4)
            | Inr (None, s4) \<Rightarrow>
                Inr (None, sendPaginationUpdate (s4\<lparr>resultPages := pages\<rparr>))))"
    using ne unfolding writeToDisk_def Let_def s2_def sorted_def pages_def by simp
  have "writeToDisk s = Inr (None, sendPaginationUpdate (s4\<lparr>resultPages := pages\<rparr>))"
    unfolding unf wp by (simp add: wk)
  moreover have "s4\<lparr>resultPages := pages\<rparr> =
      s\<lparr>resultPointers := [], allPackagesSorted := allPackages s,
        dir := rev (map pkgOf (bypkgOf (sortBy pointerByRanking_Less (resultPointers s)))) @
               rev (map (pageOf (sortBy pointerByRanking_Less (resultPointers s)))
                      [0..<pageCount (length (resultPointers s)) resultsPerPage]) @
               (PackagesJson, PackagesFile (allPackages s)) # dir s,
        resultPages := pageCount (length (resultPointers s)) resultsPerPage\<rparr>"
    by (simp add: s4_def s3_def s2_def pages_def sorted_def length_sortBy)
  ultimately show ?thesis by simp
qed

lemma writeToDisk_empty: "resultPointers s = [] \<Longrightarrow> writeToDisk s = Inr (None, s)"
  by (simp add: writeToDisk_def)

lemma filesWritten_append: "dir s' = new @ dir s \<Longrightarrow> filesWritten s s' = new"
  by (simp add: filesWritten_def)

lemma pageFiles_append: "pageFiles (a @ b) = pageFiles a @ pageFiles b"
  by (simp add: pageFiles_def)

lemma pageFiles_pkgs: "pageFiles (rev (map pkgOf m)) = []"
  by (induction m) (auto simp: pageFiles_def pkgOf_def)

lemma pageFiles_pages:
  "pageFiles (rev (map (pageOf ptrs) ns)) =
     rev (map (\<lambda>n. (n, take 10 (drop (n * 10) ptrs))) ns)"
  by (induction ns) (auto simp: pageFiles_def pageOf_def resultsPerPage_def)

lemma last_page_arith:
  fixes n q r r1 len :: nat
  assumes "len + 9 = 10 * (n + 1) + r1" and "r1 < 10" and "len = 10 * q + r" and "r < 10"
  shows "min 10 (len - n * 10) = (if r = 0 then 10 else r)"
  using assms by (simp add: min_def) presburger

lemma page_length:
  assumes "(n::nat) < (len + 9) div 10"
  shows "min 10 (len - n * 10) =
     (if n + 1 < (len + 9) div 10 then 10 else if len mod 10 = 0 then 10 else len mod 10)"
proof (cases "n + 1 < (len + 9) div 10")
  case True
  then have "n + 2 \<le> (len + 9) div 10" by simp
  then have "(n + 2) * 10 \<le> len + 9" by (simp add: less_eq_div_iff_mult_less_eq)
  then show ?thesis using True by simp
next
  case False
  then have eq: "(len + 9) div 10 = n + 1" using assms by simp
  have d: "len + 9 = 10 * ((len + 9) div 10) + (len + 9) mod 10" by simp
  have "min 10 (len - n * 10) = (if len mod 10 = 0 then 10 else len mod 10)"
  proof (rule last_page_arith)
    show "len + 9 = 10 * (n + 1) + (len + 9) mod 10" using d unfolding eq .
    show "(len + 9) mod 10 < 10" by simp
    show "len = 10 * (len div 10) + len mod 10" by simp
    show "len mod 10 < 10" by simp
  qed
  then show ?thesis using False by simp
qed

subsection \<open>The pages and the package files\<close>

lemma writeToDisk_dir:
  assumes ne: "resultPointers s \<noteq> []"
    and rd: "list_all (readable (tempFiles s)) (resultPointers s)"
  shows "\<exists>s'. writeToDisk s = Inr (None, s') \<and>
     dir s' = filesWritten s s' @ dir s \<and>
     filesWritten s s' =
       rev (map pkgOf (bypkgOf (sortBy pointerByRanking_Less (resultPointers s)))) @
       rev (map (pageOf (sortBy pointerByRanking_Less (resultPointers s)))
              [0..<pageCount (length (resultPointers s)) resultsPerPage]) @
       [(PackagesJson, PackagesFile (allPackages s))] \<and>
     allPackagesSorted s' = allPackages s \<and>
     resultPages s' = pageCount (length (resultPointers s)) resultsPerPage"
proof -
  let ?new = "rev (map pkgOf (bypkgOf (sortBy pointerByRanking_Less (resultPointers s)))) @
       rev (map (pageOf (sortBy pointerByRanking_Less (resultPointers s)))
              [0..<pageCount (length (resultPointers s)) resultsPerPage]) @
       [(PackagesJson, PackagesFile (allPackages s))]"
  obtain s' where w: "writeToDisk s = Inr (None, s')"
    and d: "dir s' = ?new @ dir s"
    and a: "allPackagesSorted s' = allPackages s"
    and p: "resultPages s' = pageCount (length (resultPointers s)) resultsPerPage"
    using writeToDisk_success [OF ne rd]
    by (simp add: sendPaginationUpdate_def addEventMarshal_def)
  have "filesWritten s s' = ?new" using d by (rule filesWritten_append)
  then show ?thesis using w d a p by simp
qed

text \<open>
  Claim C4, as amended. When every stored pointer can be read back, that is, its temp
  file is still open and holds the pointer's byte range, the persistence step returns
  without error, and the page files it writes are \<^verbatim>\<open>page_0.json\<close> up to
  \<^verbatim>\<open>page_<P-1>.json\<close>, each once, where \<open>P\<close> is the ceiling of the number of pointers
  divided by 10; every page but the last holds 10 entries, and the last holds the
  number of pointers modulo 10, or 10 when that is 0.
\<close>

theorem writeToDisk_pages:
  assumes "list_all (readable (tempFiles s)) (resultPointers s)"
  shows "\<exists>s'. writeToDisk s = Inr (None, s') \<and>
     dir s' = filesWritten s s' @ dir s \<and>
     map fst (pageFiles (filesWritten s s')) =
       rev [0..<nat \<lceil>(of_nat (length (resultPointers s)) :: rat) / 10\<rceil>] \<and>
     (\<forall>pg \<in> set (pageFiles (filesWritten s s')).
        length (snd pg) =
          (if fst pg + 1 < nat \<lceil>(of_nat (length (resultPointers s)) :: rat) / 10\<rceil> then 10
           else if length (resultPointers s) mod 10 = 0 then 10
           else length (resultPointers s) mod 10))"
proof (cases "resultPointers s = []")
  case True
  then have "writeToDisk s = Inr (None, s)" by (rule writeToDisk_empty)
  moreover have "filesWritten s s = []" by (simp add: filesWritten_def)
  ultimately show ?thesis using True by (simp add: pageFiles_def)
next
  case False
  let ?n = "length (resultPointers s)"
  let ?sorted = "sortBy pointerByRanking_Less (resultPointers s)"
  have pc: "nat \<lceil>(of_nat ?n :: rat) / 10\<rceil> = pageCount ?n resultsPerPage"
    by (simp add: pageCount_def resultsPerPage_def)
  obtain s' where w: "writeToDisk s = Inr (None, s')"
    and d: "dir s' = filesWritten s s' @ dir s"
    and f: "filesWritten s s' =
       rev (map pkgOf (bypkgOf ?sorted)) @
       rev (map (pageOf ?sorted) [0..<pageCount ?n resultsPerPage]) @
       [(PackagesJson, PackagesFile (allPackages s))]"
    using writeToDisk_dir [OF False assms] by blast
  have pf: "pageFiles (filesWritten s s') =
      rev (map (\<lambda>k. (k, take 10 (drop (k * 10) ?sorted))) [0..<pageCount ?n resultsPerPage])"
    unfolding f by (simp add: pageFiles_append pageFiles_pkgs pageFiles_pages) (simp add: pageFiles_def)
  have names: "map fst (pageFiles (filesWritten s s')) = rev [0..<pageCount ?n resultsPerPage]"
    unfolding pf by (simp add: rev_map [symmetric] comp_def)
  have lens: "length (snd pg) =
          (if fst pg + 1 < pageCount ?n resultsPerPage then 10
           else if ?n mod 10 = 0 then 10 else ?n mod 10)"
    if "pg \<in> set (pageFiles (filesWritten s s'))" for pg
  proof -
    from that have "pg \<in> (\<lambda>k. (k, take 10 (drop (k * 10) ?sorted))) ` {0..<pageCount ?n resultsPerPage}"
      unfolding pf by simp
    then obtain k where k: "k < pageCount ?n resultsPerPage"
      and pg: "pg = (k, take 10 (drop (k * 10) ?sorted))"
      by auto
    have "k < (?n + 9) div 10" using k by (simp add: resultsPerPage_def pageCount_div)
    then have "min 10 (?n - k * 10) =
       (if k + 1 < (?n + 9) div 10 then 10 else if ?n mod 10 = 0 then 10 else ?n mod 10)"
      by (rule page_length)
    then show ?thesis
      by (simp add: pg length_sortBy resultsPerPage_def pageCount_div min.commute)
  qed
  show ?thesis using w d names lens unfolding pc by blast
qed

lemma spooled_readable: "list_all (readable (tempFiles (spooled n))) (resultPointers (spooled n))"
  by (auto simp: spooled_def list_all_iff readable_def aPointer_def)

theorem writeToDisk_pages_witness:
  "list_all (readable (tempFiles (spooled 12))) (resultPointers (spooled 12)) \<and>
   length (resultPointers (spooled 12)) = 12 \<and>
   (\<exists>s'. writeToDisk (spooled 12) = Inr (None, s') \<and>
      map fst (pageFiles (filesWritten (spooled 12) s')) = [1, 0] \<and>
      list_all (\<lambda>pg. length (snd pg) = (if fst pg = 0 then 10 else 2))
        (pageFiles (filesWritten (spooled 12) s')))"
proof -
  have h: "list_all (readable (tempFiles (spooled 12))) (resultPointers (spooled 12))"
    by (rule spooled_readable)
  have n: "length (resultPointers (spooled 12)) = 12" by (simp add: spooled_def)
  have c: "nat \<lceil>(of_nat 12 :: rat) / 10\<rceil> = 2"
    using pageCount_div [of 12] by (simp add: pageCount_def)
  have u: "rev [0..<2] = [1, 0::nat]" by (simp add: upt_rec)
  obtain s' where w: "writeToDisk (spooled 12) = Inr (None, s')"
    and names: "map fst (pageFiles (filesWritten (spooled 12) s')) = [1, 0]"
    and lens: "\<forall>pg \<in> set (pageFiles (filesWritten (spooled 12) s')).
        length (snd pg) = (if fst pg + 1 < 2 then 10 else 2)"
    using writeToDisk_pages [OF h] unfolding n c u by auto
  have l: "list_all (\<lambda>pg. length (snd pg) = (if fst pg = 0 then 10 else 2))
        (pageFiles (filesWritten (spooled 12) s'))"
    using lens by (auto simp: list_all_iff)
  have "\<exists>s'. writeToDisk (spooled 12) = Inr (None, s') \<and>
      map fst (pageFiles (filesWritten (spooled 12) s')) = [1, 0] \<and>
      list_all (\<lambda>pg. length (snd pg) = (if fst pg = 0 then 10 else 2))
        (pageFiles (filesWritten (spooled 12) s'))"
    using w names l by (intro exI [of _ s'] conjI)
  then show ?thesis using h n by (intro conjI)
qed

lemma eleven_run:
  "(case storeResults encLen (newQueryState 1) 0 elevenTied of
      Inl e \<Rightarrow> False
    | Inr s \<Rightarrow>
        length (resultPointers (cancelQuery s)) = 11 \<and>
        (case queryBackend encLen (cancelQuery s) 0 (Connected []) of
           Inl e \<Rightarrow> False
         | Inr s' \<Rightarrow> doneFlag s' \<and> pageFiles (filesWritten (cancelQuery s) s') = [(0, [])]))"
  by code_simp

text \<open>
  Claim C4 does not hold as stated. A backend stores eleven results, the query is
  cancelled (\<^verbatim>\<open>finishQuery\<close> closes the temp files), and the worker's exit completes
  the query: \<^verbatim>\<open>writeToDisk\<close> creates \<^verbatim>\<open>page_0.json\<close> and fails at the first
  \<^verbatim>\<open>Seek\<close> on the closed temp file. The query is done with 11 stored pointers, and
  the ceiling of 11 divided by 10 is 2, yet one page file is written, and it holds no
  entry.
\<close>

theorem cancelled_query_pages:
  "storeResults encLen (newQueryState 1) 0 elevenTied = Inr elevenStored \<and>
   length (resultPointers (cancelQuery elevenStored)) = 11 \<and>
   queryBackend encLen (cancelQuery elevenStored) 0 (Connected []) = Inr elevenCancelled \<and>
   doneFlag elevenCancelled \<and>
   nat \<lceil>(of_nat (length (resultPointers (cancelQuery elevenStored))) :: rat) / 10\<rceil> = 2 \<and>
   pageFiles (filesWritten (cancelQuery elevenStored) elevenCancelled) = [(0, [])]"
proof -
  obtain s where s: "storeResults encLen (newQueryState 1) 0 elevenTied = Inr s"
    and n: "length (resultPointers (cancelQuery s)) = 11"
    and r: "case queryBackend encLen (cancelQuery s) 0 (Connected []) of
           Inl e \<Rightarrow> False
         | Inr s' \<Rightarrow> doneFlag s' \<and> pageFiles (filesWritten (cancelQuery s) s') = [(0, [])]"
    using eleven_run by (auto split: sum.splits)
  have e: "elevenStored = s" unfolding elevenStored_def s by simp
  obtain s' where q: "queryBackend encLen (cancelQuery s) 0 (Connected []) = Inr s'"
    and d: "doneFlag s'" and p: "pageFiles (filesWritten (cancelQuery s) s') = [(0, [])]"
    using r by (auto split: sum.splits)
  have c: "elevenCancelled = s'" unfolding elevenCancelled_def e q by simp
  have pc: "nat \<lceil>(of_nat (11::nat) :: rat) / 10\<rceil> = 2"
    using pageCount_div [of 11] by (simp add: pageCount_def)
  show ?thesis unfolding e c n using s q d p pc by (intro conjI) simp_all
qed

text \<open>
  Claim C5, as amended. When every stored pointer can be read back, that is, its temp
  file is still open and holds the pointer's byte range, the persistence step returns
  without error and writes, for every package name among the pointers, one file
  \<^verbatim>\<open>pkg_<name>.json\<close>. Its entries are at most 2, as many as the package has when it has
  fewer, they are pointers of the package in the order of \<^verbatim>\<open>pointerByRanking\<close> (ranking
  descending, then path hash descending), and no pointer of the package that was left
  out ranks before one of them.
\<close>

theorem writeToDisk_best:
  assumes "list_all (readable (tempFiles s)) (resultPointers s)"
  shows "\<exists>s'. writeToDisk s = Inr (None, s') \<and>
     (\<forall>pkg \<in> packageName ` set (resultPointers s).
        \<exists>es. pkgFilesOf pkg (filesWritten s s') = [PointerFile es True] \<and>
          length es \<le> 2 \<and>
          length es = min 2 (length (filter (\<lambda>p. packageName p = pkg) (resultPointers s))) \<and>
          mset es \<subseteq># mset (filter (\<lambda>p. packageName p = pkg) (resultPointers s)) \<and>
          sorted_wrt (\<lambda>a b. \<not> pointerByRanking_Less b a) es \<and>
          (\<forall>e \<in> set es.
             \<forall>q \<in># mset (filter (\<lambda>p. packageName p = pkg) (resultPointers s)) - mset es.
               \<not> pointerByRanking_Less q e))"
proof (cases "resultPointers s = []")
  case True
  then have "writeToDisk s = Inr (None, s)" by (rule writeToDisk_empty)
  then show ?thesis using True by simp
next
  case False
  let ?sorted = "sortBy pointerByRanking_Less (resultPointers s)"
  obtain s' where w: "writeToDisk s = Inr (None, s')"
    and f: "filesWritten s s' =
       rev (map pkgOf (bypkgOf ?sorted)) @
       rev (map (pageOf ?sorted) [0..<pageCount (length (resultPointers s)) resultsPerPage]) @
       [(PackagesJson, PackagesFile (allPackages s))]"
    using writeToDisk_dir [OF False assms] by blast
  have best: "\<exists>es. pkgFilesOf pkg (filesWritten s s') = [PointerFile es True] \<and>
          length es \<le> 2 \<and>
          length es = min 2 (length (filter (\<lambda>p. packageName p = pkg) (resultPointers s))) \<and>
          mset es \<subseteq># mset (filter (\<lambda>p. packageName p = pkg) (resultPointers s)) \<and>
          sorted_wrt (\<lambda>a b. \<not> pointerByRanking_Less b a) es \<and>
          (\<forall>e \<in> set es.
             \<forall>q \<in># mset (filter (\<lambda>p. packageName p = pkg) (resultPointers s)) - mset es.
               \<not> pointerByRanking_Less q e)"
    if pkg: "pkg \<in> packageName ` set (resultPointers s)" for pkg
  proof -
    let ?P = "\<lambda>p. packageName p = pkg"
    let ?f = "filter ?P ?sorted"
    let ?es = "take 2 ?f"
    have in_sorted: "pkg \<in> packageName ` set ?sorted" using pkg by (simp add: set_sortBy)
    have one: "filter (\<lambda>kv. fst kv = pkg) (bypkgOf ?sorted) = [(pkg, ?es)]"
      using bypkgOf_files [OF in_sorted] by (simp add: bestOf_def resultsPerPackage_def)
    have pk: "filter (\<lambda>f. fst f = Pkg pkg) (map pkgOf m) = map pkgOf (filter (\<lambda>kv. fst kv = pkg) m)" for m
      by (induction m) (auto simp: pkgOf_def)
    have pg: "filter (\<lambda>f. fst f = Pkg pkg) (map (pageOf ptrs) ns) = []" for ptrs ns
      by (induction ns) (auto simp: pageOf_def)
    have fl: "pkgFilesOf pkg (filesWritten s s') = [PointerFile ?es True]"
      unfolding f pkgFilesOf_def
      by (simp add: rev_filter [symmetric] pk pg one) (simp add: pkgOf_def)
    have ms: "mset ?f = mset (filter ?P (resultPointers s))"
      by (simp add: mset_filter mset_sortBy)
    have len: "length ?f = length (filter ?P (resultPointers s))"
      using ms by (metis size_mset)
    have split: "?f = ?es @ drop 2 ?f" by simp
    have "mset ?f = mset ?es + mset (drop 2 ?f)"
      by (metis split mset_append)
    then have sum: "mset (filter ?P (resultPointers s)) = mset ?es + mset (drop 2 ?f)"
      unfolding ms .
    have rest: "mset (filter ?P (resultPointers s)) - mset ?es = mset (drop 2 ?f)"
      unfolding sum by simp
    have sub: "mset ?es \<subseteq># mset (filter ?P (resultPointers s))"
      unfolding sum by simp
    have "sorted_wrt (\<lambda>a b. \<not> pointerByRanking_Less b a) ?f"
      by (rule sorted_wrt_filter) (rule sorted_pointers)
    then have srt: "sorted_wrt (\<lambda>a b. \<not> pointerByRanking_Less b a) (?es @ drop 2 ?f)"
      by simp
    have a: "sorted_wrt (\<lambda>a b. \<not> pointerByRanking_Less b a) ?es"
      using srt unfolding sorted_wrt_append by blast
    have b: "\<forall>e \<in> set ?es. \<forall>q \<in># mset (filter ?P (resultPointers s)) - mset ?es.
               \<not> pointerByRanking_Less q e"
      using srt unfolding sorted_wrt_append rest by auto
    show ?thesis
      using fl len sub a b by (intro exI [of _ ?es]) (simp add: min.commute)
  qed
  show ?thesis using w best by blast
qed

theorem writeToDisk_best_witness:
  "list_all (readable (tempFiles (spooled 5))) (resultPointers (spooled 5)) \<and>
   ''a'' \<in> packageName ` set (resultPointers (spooled 5)) \<and>
   (\<exists>s' es. writeToDisk (spooled 5) = Inr (None, s') \<and>
      pkgFilesOf ''a'' (filesWritten (spooled 5) s') = [PointerFile es True] \<and>
      length es = 2 \<and>
      sorted_wrt (\<lambda>a b. \<not> pointerByRanking_Less b a) es)"
proof -
  have h: "list_all (readable (tempFiles (spooled 5))) (resultPointers (spooled 5))"
    by (rule spooled_readable)
  have "aPointer 0 \<in> set (resultPointers (spooled 5))"
    by (simp add: spooled_def)
  moreover have "packageName (aPointer 0) = ''a''" by (simp add: aPointer_def)
  ultimately have a: "''a'' \<in> packageName ` set (resultPointers (spooled 5))"
    by (metis imageI)
  have u: "[0..<5] = [0, 1, 2, 3, 4::nat]" by (simp add: upt_rec)
  have n: "length (filter (\<lambda>p. packageName p = ''a'') (resultPointers (spooled 5))) = 3"
    by (simp add: spooled_def u aPointer_def)
  obtain s' where w: "writeToDisk (spooled 5) = Inr (None, s')"
    and b: "\<forall>pkg \<in> packageName ` set (resultPointers (spooled 5)).
        \<exists>es. pkgFilesOf pkg (filesWritten (spooled 5) s') = [PointerFile es True] \<and>
          length es \<le> 2 \<and>
          length es = min 2 (length (filter (\<lambda>p. packageName p = pkg) (resultPointers (spooled 5)))) \<and>
          mset es \<subseteq># mset (filter (\<lambda>p. packageName p = pkg) (resultPointers (spooled 5))) \<and>
          sorted_wrt (\<lambda>a b. \<not> pointerByRanking_Less b a) es \<and>
          (\<forall>e \<in> set es.
             \<forall>q \<in># mset (filter (\<lambda>p. packageName p = pkg) (resultPointers (spooled 5))) - mset es.
               \<not> pointerByRanking_Less q e)"
    using writeToDisk_best [OF h] by blast
  obtain es where "pkgFilesOf ''a'' (filesWritten (spooled 5) s') = [PointerFile es True]"
    and "length es = min 2 (length (filter (\<lambda>p. packageName p = ''a'') (resultPointers (spooled 5))))"
    and "sorted_wrt (\<lambda>a b. \<not> pointerByRanking_Less b a) es"
    using b a by blast
  then have "\<exists>s' es. writeToDisk (spooled 5) = Inr (None, s') \<and>
      pkgFilesOf ''a'' (filesWritten (spooled 5) s') = [PointerFile es True] \<and>
      length es = 2 \<and>
      sorted_wrt (\<lambda>a b. \<not> pointerByRanking_Less b a) es"
    using w unfolding n by (intro exI [of _ s'] exI [of _ es]) simp
  then show ?thesis using h a by (intro conjI)
qed

text \<open>
  Claim C5 does not hold as stated. A backend stores one result, of package
  \<^verbatim>\<open>pkgX\<close>, the query is cancelled (\<^verbatim>\<open>finishQuery\<close> closes the temp files), and the
  worker's exit completes the query: \<^verbatim>\<open>writeToDisk\<close> fails on the closed temp file
  while it writes \<^verbatim>\<open>page_0.json\<close>, before the loop over the packages. The query is
  done and \<^verbatim>\<open>pkgX\<close> appears in its results, yet there is no file \<^verbatim>\<open>pkg_pkgX.json\<close>:
  the directory holds \<^verbatim>\<open>page_0.json\<close> and \<^verbatim>\<open>packages.json\<close> only.
\<close>

theorem cancelled_query_package_file:
  "storeResult encLen (newQueryState 1) 0 (aResult ''pkgX_foo.c'' (4 / 5) (1 / 2)) =
     Inr afterOneResult \<and>
   map packageName (resultPointers (cancelQuery afterOneResult)) = [''pkgX''] \<and>
   queryBackend encLen (cancelQuery afterOneResult) 0 (Connected []) = Inr afterCancel \<and>
   doneFlag afterCancel \<and>
   pkgFilesOf ''pkgX'' (dir afterCancel) = [] \<and>
   map fst (dir afterCancel) = [Page 0, PackagesJson]"
  by code_simp

text \<open>
  Claim C7, as amended. When the query has at least one stored pointer and every
  pointer can be read back, the persistence step returns without error, writes
  \<^verbatim>\<open>packages.json\<close> once, with the package list it freezes on the state, and records
  the page count, the ceiling of the number of pointers divided by 10. The list is the
  package set of the state; when that set holds the package names of the pointers,
  as \<^verbatim>\<open>storeResult\<close> keeps it, the list has one entry for each of these names.
\<close>

theorem writeToDisk_packages:
  assumes ne: "resultPointers s \<noteq> []"
    and rd: "list_all (readable (tempFiles s)) (resultPointers s)"
    and ds: "distinct (allPackages s)"
    and ps: "set (allPackages s) = packageName ` set (resultPointers s)"
  shows "\<exists>s'. writeToDisk s = Inr (None, s') \<and>
     dir s' = filesWritten s s' @ dir s \<and>
     filter (\<lambda>f. fst f = PackagesJson) (filesWritten s s') =
       [(PackagesJson, PackagesFile (allPackagesSorted s'))] \<and>
     map_of (dir s') PackagesJson = Some (PackagesFile (allPackagesSorted s')) \<and>
     allPackagesSorted s' = allPackages s \<and>
     distinct (allPackagesSorted s') \<and>
     set (allPackagesSorted s') = packageName ` set (resultPointers s) \<and>
     resultPages s' = nat \<lceil>(of_nat (length (resultPointers s)) :: rat) / 10\<rceil>"
proof -
  let ?sorted = "sortBy pointerByRanking_Less (resultPointers s)"
  obtain s' where w: "writeToDisk s = Inr (None, s')"
    and d: "dir s' = filesWritten s s' @ dir s"
    and f: "filesWritten s s' =
       rev (map pkgOf (bypkgOf ?sorted)) @
       rev (map (pageOf ?sorted) [0..<pageCount (length (resultPointers s)) resultsPerPage]) @
       [(PackagesJson, PackagesFile (allPackages s))]"
    and a: "allPackagesSorted s' = allPackages s"
    and p: "resultPages s' = pageCount (length (resultPointers s)) resultsPerPage"
    using writeToDisk_dir [OF ne rd] by blast
  have pk: "filter (\<lambda>f. fst f = PackagesJson) (map pkgOf m) = []" for m
    by (induction m) (auto simp: pkgOf_def)
  have pg: "filter (\<lambda>f. fst f = PackagesJson) (map (pageOf ptrs) ns) = []" for ptrs ns
    by (induction ns) (auto simp: pageOf_def)
  have one: "filter (\<lambda>f. fst f = PackagesJson) (filesWritten s s') =
       [(PackagesJson, PackagesFile (allPackagesSorted s'))]"
    unfolding f a by (simp add: rev_filter [symmetric] pk pg)
  have skip: "map_of (ys @ xs) k = map_of xs k" if "k \<notin> fst ` set ys"
    for ys xs :: "(fname \<times> fcontent) list" and k
    using that by (induction ys) auto
  have nk: "PackagesJson \<notin> fst ` set (rev (map pkgOf m))" for m
    by (auto simp: pkgOf_def)
  have ng: "PackagesJson \<notin> fst ` set (rev (map (pageOf ptrs) ns))" for ptrs ns
    by (auto simp: pageOf_def)
  have look: "map_of (dir s') PackagesJson = Some (PackagesFile (allPackagesSorted s'))"
    unfolding d f a by (simp only: append_assoc skip [OF nk] skip [OF ng]) simp
  show ?thesis
    using w d one look ds ps a p
    by (intro exI [of _ s']) (simp add: pageCount_def resultsPerPage_def)
qed


theorem writeToDisk_packages_witness:
  "resultPointers (spooled 5) \<noteq> [] \<and>
   list_all (readable (tempFiles (spooled 5))) (resultPointers (spooled 5)) \<and>
   distinct (allPackages (spooled 5)) \<and>
   set (allPackages (spooled 5)) = packageName ` set (resultPointers (spooled 5)) \<and>
   (\<exists>s'. writeToDisk (spooled 5) = Inr (None, s') \<and>
      map_of (dir s') PackagesJson = Some (PackagesFile [''a'', ''b'']) \<and>
      resultPages s' = 1)"
proof -
  have u: "[0..<5] = [0, 1, 2, 3, 4::nat]" by (simp add: upt_rec)
  have ne: "resultPointers (spooled 5) \<noteq> []" by (simp add: spooled_def u)
  have rd: "list_all (readable (tempFiles (spooled 5))) (resultPointers (spooled 5))"
    by (rule spooled_readable)
  have ds: "distinct (allPackages (spooled 5))" by (simp add: spooled_def)
  have ps: "set (allPackages (spooled 5)) = packageName ` set (resultPointers (spooled 5))"
    by (auto simp: spooled_def u aPointer_def)
  have n: "length (resultPointers (spooled 5)) = 5" by (simp add: spooled_def)
  have c: "nat \<lceil>(of_nat 5 :: rat) / 10\<rceil> = 1"
    using pageCount_div [of 5] by (simp add: pageCount_def)
  have a: "allPackages (spooled 5) = [''a'', ''b'']" by (simp add: spooled_def)
  obtain s' where "writeToDisk (spooled 5) = Inr (None, s')"
    and "map_of (dir s') PackagesJson = Some (PackagesFile (allPackagesSorted s'))"
    and "allPackagesSorted s' = allPackages (spooled 5)"
    and "resultPages s' = nat \<lceil>(of_nat (length (resultPointers (spooled 5))) :: rat) / 10\<rceil>"
    using writeToDisk_packages [OF ne rd ds ps] by blast
  then have "\<exists>s'. writeToDisk (spooled 5) = Inr (None, s') \<and>
      map_of (dir s') PackagesJson = Some (PackagesFile [''a'', ''b'']) \<and>
      resultPages s' = 1"
    unfolding n c a by (intro exI [of _ s']) simp
  then show ?thesis using ne rd ds ps by (intro conjI)
qed

lemma storeProgress_fresh:
  "storeProgress (newQueryState 1) 0 (aProgress 0 0) =
     Inr (finishQuery (addEventMarshal (ProgressEvent ''progress'' 0 0 0)
       ((newQueryState 1)\<lparr>filesTotal := [0], filesProcessed := [0]\<rparr>)))"
  by (simp add: storeProgress_def newQueryState_def aProgress_def zeroResult_def allSet_def
      sumInts_def persist_def writeToDisk_def Let_def)

text \<open>
  Claim C7 does not hold as stated. A query whose only backend reports 0 of 0 files
  completes, and is done, with no result: \<^verbatim>\<open>writeToDisk\<close> returns at its first test,
  and the directory has no \<^verbatim>\<open>packages.json\<close>, nor any other file.
\<close>

theorem no_results_no_packages_file:
  "writeToDisk (newQueryState 1) = Inr (None, newQueryState 1) \<and>
   map_sum id doneFlag (storeProgress (newQueryState 1) 0 (aProgress 0 0)) = Inr True \<and>
   map_sum id dir (storeProgress (newQueryState 1) 0 (aProgress 0 0)) = Inr []"
  unfolding storeProgress_fresh
  by (simp add: writeToDisk_def newQueryState_def finishQuery_def addEvent_empty_def
      addEventMarshal_def)

lemma packages_newQueryState:
  "distinct (allPackages (newQueryState n)) \<and>
   set (allPackages (newQueryState n)) = packageName ` set (resultPointers (newQueryState n))"
  by (simp add: newQueryState_def)

lemma packages_storeResult:
  assumes "distinct (allPackages s)"
    and "set (allPackages s) = packageName ` set (resultPointers s)"
    and "storeResult enc s idx r = Inr s'"
  shows "distinct (allPackages s') \<and>
         set (allPackages s') = packageName ` set (resultPointers s')"
  using assms
  by (auto simp: storeResult_unfold spool_def Let_def failQuery_def finishQuery_def
      addEvent_empty_def addEventMarshal_def split: if_splits)

subsection \<open>Completion\<close>

lemma writeToDisk_total:
  assumes rng: "\<forall>p \<in> set (resultPointers s). backendidx p < length (tempFiles s)"
  shows "\<exists>e s'. writeToDisk s = Inr (e, s') \<and>
     filesTotal s' = filesTotal s \<and> filesProcessed s' = filesProcessed s \<and>
     tempFiles s' = tempFiles s \<and> doneFlag s' = doneFlag s \<and>
     (\<exists>ev. events s' = events s @ ev \<and> EndMarker \<notin> set ev) \<and>
     (resultPointers s = [] \<longrightarrow> s' = s) \<and> resultPointers s' = []"
proof (cases "resultPointers s = []")
  case True
  then have "writeToDisk s = Inr (None, s)" by (rule writeToDisk_empty)
  then show ?thesis using True by simp
next
  case False
  define sorted where "sorted = sortBy pointerByRanking_Less (resultPointers s)"
  define pages where "pages = pageCount (length sorted) resultsPerPage"
  define s2 where "s2 = s\<lparr>resultPointers := [], allPackagesSorted := allPackages s\<rparr>
                         \<lparr>dir := (PackagesJson, PackagesFile (allPackages s)) #
                            dir (s\<lparr>resultPointers := [], allPackagesSorted := allPackages s\<rparr>)\<rparr>"
  have unf: "writeToDisk s =
      (case writePages s2 sorted pages 0 of
         Inl e \<Rightarrow> Inl e
       | Inr (Some err, s3) \<Rightarrow> Inr (Some err, s3)
       | Inr (None, s3) \<Rightarrow>
           (case writePkgs s3 (bypkgOf sorted) of
              Inl e \<Rightarrow> Inl e
            | Inr (Some err, s4) \<Rightarrow> Inr (Some err, s4)
            | Inr (None, s4) \<Rightarrow>
                Inr (None, sendPaginationUpdate (s4\<lparr>resultPages := pages\<rparr>))))"
    using False unfolding writeToDisk_def Let_def s2_def sorted_def pages_def by simp
  have tf2: "tempFiles s2 = tempFiles s" by (simp add: s2_def)
  have rs: "\<forall>p \<in> set sorted. backendidx p < length (tempFiles s2)"
    using rng by (simp add: sorted_def set_sortBy tf2)
  have b: "(pages - 1) * 10 \<le> length sorted"
    unfolding pages_def resultsPerPage_def by (rule pages_bound)
  obtain e d where wp: "writePages s2 sorted pages 0 = Inr (e, s2\<lparr>dir := d\<rparr>)"
    using writePages_total [OF rs b] by blast
  have frame: "filesTotal (s2\<lparr>dir := x\<rparr>) = filesTotal s \<and>
      filesProcessed (s2\<lparr>dir := x\<rparr>) = filesProcessed s \<and>
      tempFiles (s2\<lparr>dir := x\<rparr>) = tempFiles s \<and> doneFlag (s2\<lparr>dir := x\<rparr>) = doneFlag s \<and>
      events (s2\<lparr>dir := x\<rparr>) = events s @ [] \<and> resultPointers (s2\<lparr>dir := x\<rparr>) = []" for x
    by (simp add: s2_def)
  show ?thesis
  proof (cases e)
    case (Some err)
    have "writeToDisk s = Inr (Some err, s2\<lparr>dir := d\<rparr>)"
      unfolding unf wp Some by simp
    then show ?thesis using frame [of d] False by (metis empty_iff list.set(1))
  next
    case None
    have rk: "\<forall>kv \<in> set (bypkgOf sorted). \<forall>p \<in> set (snd kv).
                backendidx p < length (tempFiles (s2\<lparr>dir := d\<rparr>))"
    proof (intro ballI)
      fix kv p assume "kv \<in> set (bypkgOf sorted)" and p: "p \<in> set (snd kv)"
      then have "snd kv = bestOf sorted (fst kv)" using bypkgOf_entry by blast
      then have "p \<in> set sorted" using p set_bestOf by fastforce
      then show "backendidx p < length (tempFiles (s2\<lparr>dir := d\<rparr>))" using rs by simp
    qed
    obtain e' d' where "writePkgs (s2\<lparr>dir := d\<rparr>) (bypkgOf sorted) = Inr (e', s2\<lparr>dir := d\<rparr>\<lparr>dir := d'\<rparr>)"
      using writePkgs_total [OF rk] by blast
    then have wk: "writePkgs (s2\<lparr>dir := d\<rparr>) (bypkgOf sorted) = Inr (e', s2\<lparr>dir := d'\<rparr>)"
      by simp
    show ?thesis
    proof (cases e')
      case (Some err)
      have "writeToDisk s = Inr (Some err, s2\<lparr>dir := d'\<rparr>)"
        unfolding unf wp None by (simp add: wk Some)
      then show ?thesis using frame [of d'] False by (metis empty_iff list.set(1))
    next
      case n2: None
      let ?s5 = "sendPaginationUpdate (s2\<lparr>dir := d'\<rparr>\<lparr>resultPages := pages\<rparr>)"
      have w: "writeToDisk s = Inr (None, ?s5)"
        unfolding unf wp None by (simp add: wk n2)
      have "events ?s5 = events s @ (if pages > 0 then [PaginationEvent pages] else [])"
        by (simp add: sendPaginationUpdate_def addEventMarshal_def s2_def)
      then have ev: "\<exists>ev. events ?s5 = events s @ ev \<and> EndMarker \<notin> set ev"
        by auto
      have "filesTotal ?s5 = filesTotal s \<and> filesProcessed ?s5 = filesProcessed s \<and>
        tempFiles ?s5 = tempFiles s \<and> doneFlag ?s5 = doneFlag s \<and> resultPointers ?s5 = []"
        by (simp add: sendPaginationUpdate_def addEventMarshal_def s2_def)
      then show ?thesis using w ev False by blast
    qed
  qed
qed

lemma persist_total:
  assumes rng: "\<forall>p \<in> set (resultPointers s). backendidx p < length (tempFiles s)"
  shows "\<exists>s'. persist s = Inr s' \<and>
     filesTotal s' = filesTotal s \<and> filesProcessed s' = filesProcessed s \<and>
     (\<exists>ev. events s' = events s @ ev) \<and> resultPointers s' = []"
proof -
  obtain e s1 where w: "writeToDisk s = Inr (e, s1)"
    and f: "filesTotal s1 = filesTotal s" "filesProcessed s1 = filesProcessed s"
      "resultPointers s1 = []"
    and ev: "\<exists>ev. events s1 = events s @ ev"
    using writeToDisk_total [OF rng] by blast
  show ?thesis
  proof (cases e)
    case None
    then show ?thesis using w f ev by (simp add: persist_def)
  next
    case (Some err)
    then have "persist s = Inr (failQuery s1)" using w by (simp add: persist_def)
    moreover have "filesTotal (failQuery s1) = filesTotal s"
      "filesProcessed (failQuery s1) = filesProcessed s" "resultPointers (failQuery s1) = []"
      using f by (simp_all add: failQuery_def finishQuery_def addEvent_empty_def addEventMarshal_def)
    moreover have "\<exists>ev. events (failQuery s1) = events s @ ev"
      using ev by (auto simp: failQuery_def finishQuery_def addEvent_empty_def addEventMarshal_def)
    ultimately show ?thesis by blast
  qed
qed

lemma storeProgress_unfold:
  assumes "idx < length (filesTotal s)" and "idx < length (filesProcessed s)"
  shows "storeProgress s idx p =
    (let s2 = s\<lparr>filesTotal := (filesTotal s)[idx := FilesTotal p],
                 filesProcessed := (filesProcessed s)[idx := FilesProcessed p]\<rparr>;
         processed = sumInts (filesProcessed s2);
         total = sumInts (filesTotal s2)
     in if list_all (\<lambda>t. t \<noteq> - 1) (filesTotal s2)
        then (if processed = total
              then (case persist s2 of
                      Inl e \<Rightarrow> Inl e
                    | Inr s3 \<Rightarrow> Inr (finishQuery (addEventMarshal
                        (ProgressEvent (Type p) processed total (numResults s)) s3)))
              else Inr (addEventMarshal
                     (ProgressEvent (Type p) processed total (numResults s)) s2))
        else Inr s2)"
  using assms by (auto simp: storeProgress_def Let_def allSet_def split: sum.splits)

lemma storeProgress_counters:
  assumes i1: "idx < length (filesTotal s)"
    and i2: "idx < length (filesProcessed s)"
    and rng: "\<forall>q \<in> set (resultPointers s). backendidx q < length (tempFiles s)"
  shows "\<exists>s'. storeProgress s idx p = Inr s' \<and>
     filesTotal s' = (filesTotal s)[idx := FilesTotal p] \<and>
     filesProcessed s' = (filesProcessed s)[idx := FilesProcessed p] \<and>
     events s' = events s @ newEvents s s'"
proof -
  define s2 where "s2 = s\<lparr>filesTotal := (filesTotal s)[idx := FilesTotal p],
                 filesProcessed := (filesProcessed s)[idx := FilesProcessed p]\<rparr>"
  define pe where "pe = ProgressEvent (Type p) (sumInts (filesProcessed s2))
                          (sumInts (filesTotal s2)) (numResults s)"
  have ft: "filesTotal s2 = (filesTotal s)[idx := FilesTotal p]"
    and fp: "filesProcessed s2 = (filesProcessed s)[idx := FilesProcessed p]"
    and rest: "events s2 = events s" "doneFlag s2 = doneFlag s"
      "resultPointers s2 = resultPointers s" "dir s2 = dir s" "tempFiles s2 = tempFiles s"
    by (simp_all add: s2_def)
  have unf: "storeProgress s idx p =
     (if list_all (\<lambda>t. t \<noteq> - 1) (filesTotal s2)
        then (if sumInts (filesProcessed s2) = sumInts (filesTotal s2)
              then (case persist s2 of
                      Inl e \<Rightarrow> Inl e
                    | Inr s3 \<Rightarrow> Inr (finishQuery (addEventMarshal pe s3)))
              else Inr (addEventMarshal pe s2))
        else Inr s2)"
    unfolding storeProgress_unfold [OF i1 i2] Let_def s2_def pe_def by simp
  let ?complete = "(\<forall>t \<in> set (filesTotal s2). t \<noteq> - 1) \<and>
        sumInts (filesProcessed s2) = sumInts (filesTotal s2)"
  show ?thesis
  proof (cases ?complete)
    case True
    have "\<forall>q \<in> set (resultPointers s2). backendidx q < length (tempFiles s2)"
      using rng by (simp add: rest)
    then obtain s3 ev where ps: "persist s2 = Inr s3"
      and f3: "filesTotal s3 = filesTotal s2" "filesProcessed s3 = filesProcessed s2"
        "resultPointers s3 = []"
      and e3: "events s3 = events s2 @ ev"
      using persist_total [of s2] by blast
    let ?s' = "finishQuery (addEventMarshal pe s3)"
    have sp: "storeProgress s idx p = Inr ?s'"
      unfolding unf using True ps by (simp add: list_all_iff)
    have fs: "filesTotal ?s' = filesTotal s2" "filesProcessed ?s' = filesProcessed s2"
      "resultPointers ?s' = []" "doneFlag ?s'"
      using f3 by (simp_all add: finishQuery_def addEvent_empty_def addEventMarshal_def)
    have es: "events ?s' = events s @ (ev @ [pe, EndMarker])"
      using e3 by (simp add: finishQuery_def addEvent_empty_def addEventMarshal_def rest)
    then have ne: "newEvents s ?s' = ev @ [pe, EndMarker]"
      by (simp add: newEvents_def)
    have "last (events ?s') = EndMarker" unfolding es by simp
    then show ?thesis
      using sp fs es ne True
      by (intro exI [of _ ?s']) (auto simp: ft fp)
  next
    case False
    show ?thesis
    proof (cases "list_all (\<lambda>t. t \<noteq> - 1) (filesTotal s2)")
      case all: True
      then have neq: "sumInts (filesProcessed s2) \<noteq> sumInts (filesTotal s2)"
        using False by (simp add: list_all_iff)
      let ?s' = "addEventMarshal pe s2"
      have sp: "storeProgress s idx p = Inr ?s'"
        unfolding unf using all neq by simp
      have "newEvents s ?s' = [pe]"
        by (simp add: newEvents_def addEventMarshal_def rest)
      moreover have "pe \<noteq> EndMarker" by (simp add: pe_def)
      moreover have "events ?s' = events s @ [pe]"
        by (simp add: addEventMarshal_def rest)
      moreover have "filesTotal ?s' = filesTotal s2" "filesProcessed ?s' = filesProcessed s2"
        "doneFlag ?s' = doneFlag s" "resultPointers ?s' = resultPointers s" "dir ?s' = dir s"
        by (simp_all add: addEventMarshal_def rest)
      ultimately show ?thesis
        using sp False
        by (intro exI [of _ ?s']) (auto simp: ft fp)
    next
      case none: False
      have sp: "storeProgress s idx p = Inr s2"
        unfolding unf using none by simp
      have "newEvents s s2 = []" by (simp add: newEvents_def rest)
      then show ?thesis
        using sp False rest
        by (intro exI [of _ s2]) (auto simp: ft fp)
    qed
  qed
qed

text \<open>
  Claim C2. A call of \<^verbatim>\<open>storeProgress\<close> with a backend index in range returns, stores
  the two counters of the update, and declares completion exactly when, with these
  stored, no backend's total is the sentinel \<open>-1\<close> and the sum of the processed
  counters equals the sum of the totals (as the 64-bit sums of the Go code). Declaring
  completion is: the pointer list is drained by \<^verbatim>\<open>writeToDisk\<close> and \<^verbatim>\<open>finishQuery\<close>
  adds the end marker last and the query is done. Otherwise no end marker is added, and
  the pointer list, the directory and the done flag stay as they were.
\<close>

theorem storeProgress_completion:
  assumes i1: "idx < length (filesTotal s)"
    and i2: "idx < length (filesProcessed s)"
    and rng: "\<forall>q \<in> set (resultPointers s). backendidx q < length (tempFiles s)"
  shows "\<exists>s'. storeProgress s idx p = Inr s' \<and>
     filesTotal s' = (filesTotal s)[idx := FilesTotal p] \<and>
     filesProcessed s' = (filesProcessed s)[idx := FilesProcessed p] \<and>
     events s' = events s @ newEvents s s' \<and>
     (EndMarker \<in> set (newEvents s s') \<longleftrightarrow>
        (\<forall>t \<in> set (filesTotal s'). t \<noteq> - 1) \<and>
        sumInts (filesProcessed s') = sumInts (filesTotal s')) \<and>
     ((\<forall>t \<in> set (filesTotal s'). t \<noteq> - 1) \<and>
        sumInts (filesProcessed s') = sumInts (filesTotal s') \<longrightarrow>
      doneFlag s' \<and> resultPointers s' = [] \<and> last (events s') = EndMarker) \<and>
     (\<not> ((\<forall>t \<in> set (filesTotal s'). t \<noteq> - 1) \<and>
        sumInts (filesProcessed s') = sumInts (filesTotal s')) \<longrightarrow>
      doneFlag s' = doneFlag s \<and> resultPointers s' = resultPointers s \<and> dir s' = dir s)"
proof -
  define s2 where "s2 = s\<lparr>filesTotal := (filesTotal s)[idx := FilesTotal p],
                 filesProcessed := (filesProcessed s)[idx := FilesProcessed p]\<rparr>"
  define pe where "pe = ProgressEvent (Type p) (sumInts (filesProcessed s2))
                          (sumInts (filesTotal s2)) (numResults s)"
  have ft: "filesTotal s2 = (filesTotal s)[idx := FilesTotal p]"
    and fp: "filesProcessed s2 = (filesProcessed s)[idx := FilesProcessed p]"
    and rest: "events s2 = events s" "doneFlag s2 = doneFlag s"
      "resultPointers s2 = resultPointers s" "dir s2 = dir s" "tempFiles s2 = tempFiles s"
    by (simp_all add: s2_def)
  have unf: "storeProgress s idx p =
     (if list_all (\<lambda>t. t \<noteq> - 1) (filesTotal s2)
        then (if sumInts (filesProcessed s2) = sumInts (filesTotal s2)
              then (case persist s2 of
                      Inl e \<Rightarrow> Inl e
                    | Inr s3 \<Rightarrow> Inr (finishQuery (addEventMarshal pe s3)))
              else Inr (addEventMarshal pe s2))
        else Inr s2)"
    unfolding storeProgress_unfold [OF i1 i2] Let_def s2_def pe_def by simp
  let ?complete = "(\<forall>t \<in> set (filesTotal s2). t \<noteq> - 1) \<and>
        sumInts (filesProcessed s2) = sumInts (filesTotal s2)"
  show ?thesis
  proof (cases ?complete)
    case True
    have "\<forall>q \<in> set (resultPointers s2). backendidx q < length (tempFiles s2)"
      using rng by (simp add: rest)
    then obtain s3 ev where ps: "persist s2 = Inr s3"
      and f3: "filesTotal s3 = filesTotal s2" "filesProcessed s3 = filesProcessed s2"
        "resultPointers s3 = []"
      and e3: "events s3 = events s2 @ ev"
      using persist_total [of s2] by blast
    let ?s' = "finishQuery (addEventMarshal pe s3)"
    have sp: "storeProgress s idx p = Inr ?s'"
      unfolding unf using True ps by (simp add: list_all_iff)
    have fs: "filesTotal ?s' = filesTotal s2" "filesProcessed ?s' = filesProcessed s2"
      "resultPointers ?s' = []" "doneFlag ?s'"
      using f3 by (simp_all add: finishQuery_def addEvent_empty_def addEventMarshal_def)
    have es: "events ?s' = events s @ (ev @ [pe, EndMarker])"
      using e3 by (simp add: finishQuery_def addEvent_empty_def addEventMarshal_def rest)
    then have ne: "newEvents s ?s' = ev @ [pe, EndMarker]"
      by (simp add: newEvents_def)
    have "last (events ?s') = EndMarker" unfolding es by simp
    then show ?thesis
      using sp fs es ne True
      by (intro exI [of _ ?s']) (auto simp: ft fp)
  next
    case False
    show ?thesis
    proof (cases "list_all (\<lambda>t. t \<noteq> - 1) (filesTotal s2)")
      case all: True
      then have neq: "sumInts (filesProcessed s2) \<noteq> sumInts (filesTotal s2)"
        using False by (simp add: list_all_iff)
      let ?s' = "addEventMarshal pe s2"
      have sp: "storeProgress s idx p = Inr ?s'"
        unfolding unf using all neq by simp
      have "newEvents s ?s' = [pe]"
        by (simp add: newEvents_def addEventMarshal_def rest)
      moreover have "pe \<noteq> EndMarker" by (simp add: pe_def)
      moreover have "events ?s' = events s @ [pe]"
        by (simp add: addEventMarshal_def rest)
      moreover have "filesTotal ?s' = filesTotal s2" "filesProcessed ?s' = filesProcessed s2"
        "doneFlag ?s' = doneFlag s" "resultPointers ?s' = resultPointers s" "dir ?s' = dir s"
        by (simp_all add: addEventMarshal_def rest)
      ultimately show ?thesis
        using sp False
        by (intro exI [of _ ?s']) (auto simp: ft fp)
    next
      case none: False
      have sp: "storeProgress s idx p = Inr s2"
        unfolding unf using none by simp
      have "newEvents s s2 = []" by (simp add: newEvents_def rest)
      then show ?thesis
        using sp False rest
        by (intro exI [of _ s2]) (auto simp: ft fp)
    qed
  qed
qed


theorem storeProgress_completion_witness:
  "0 < length (filesTotal oneReported) \<and> 0 < length (filesProcessed oneReported) \<and>
   list_all (\<lambda>q. backendidx q < length (tempFiles oneReported)) (resultPointers oneReported) \<and>
   (\<exists>s'. storeProgress oneReported 0 (aProgress 3 5) = Inr s' \<and>
      filesTotal s' = [5, 4] \<and> filesProcessed s' = [3, 4] \<and>
      EndMarker \<notin> set (newEvents oneReported s') \<and> \<not> doneFlag s') \<and>
   (\<exists>s'. storeProgress oneReported 0 (aProgress 5 5) = Inr s' \<and>
      filesTotal s' = [5, 4] \<and> filesProcessed s' = [5, 4] \<and>
      EndMarker \<in> set (newEvents oneReported s') \<and> doneFlag s')"
proof -
  have i1: "0 < length (filesTotal oneReported)"
    and i2: "0 < length (filesProcessed oneReported)"
    and rng: "\<forall>q \<in> set (resultPointers oneReported). backendidx q < length (tempFiles oneReported)"
    and d: "\<not> doneFlag oneReported"
    and ft: "filesTotal oneReported = [- 1, 4]" and fp: "filesProcessed oneReported = [0, 4]"
    by (simp_all add: oneReported_def newQueryState_def)
  have a: "\<exists>s'. storeProgress oneReported 0 (aProgress 3 5) = Inr s' \<and>
      filesTotal s' = [5, 4] \<and> filesProcessed s' = [3, 4] \<and>
      EndMarker \<notin> set (newEvents oneReported s') \<and> \<not> doneFlag s'"
    using storeProgress_completion [OF i1 i2 rng, of "aProgress 3 5"] d
    by (auto simp: ft fp aProgress_def sumInts_def)
  have b: "\<exists>s'. storeProgress oneReported 0 (aProgress 5 5) = Inr s' \<and>
      filesTotal s' = [5, 4] \<and> filesProcessed s' = [5, 4] \<and>
      EndMarker \<in> set (newEvents oneReported s') \<and> doneFlag s'"
    using storeProgress_completion [OF i1 i2 rng, of "aProgress 5 5"]
    by (auto simp: ft fp aProgress_def sumInts_def)
  have r: "list_all (\<lambda>q. backendidx q < length (tempFiles oneReported)) (resultPointers oneReported)"
    using rng by (simp add: list_all_iff)
  show ?thesis using i1 i2 r a b by (intro conjI)
qed

subsection \<open>The exit of a backend worker\<close>

text \<open>
  Claim C6. The deferred function of a backend worker, with the worker's index in range:
  when the backend's processed counter differs from its total at exit, it stores the
  progress update whose processed and total are both the total known so far, or 0 when
  that is still the sentinel \<open>-1\<close>, so that both counters of the backend hold this
  value afterwards, and the error event \<^verbatim>\<open>backendunavailable\<close> is the last event it
  adds. When the two counters are equal at exit, it leaves the state as it is: no
  update, no event.
\<close>

theorem queryBackend_exit_unavailable:
  assumes i1: "idx < length (filesTotal s)"
    and i2: "idx < length (filesProcessed s)"
    and rng: "\<forall>q \<in> set (resultPointers s). backendidx q < length (tempFiles s)"
  shows "(filesProcessed s ! idx = filesTotal s ! idx \<longrightarrow> queryBackend_exit s idx = Inr s) \<and>
     (filesProcessed s ! idx \<noteq> filesTotal s ! idx \<longrightarrow>
        (\<exists>s1 s'. storeProgress s idx
                   (zeroResult\<lparr>Type := ''progress'',
                      FilesProcessed := (if filesTotal s ! idx = - 1 then 0 else filesTotal s ! idx),
                      FilesTotal := (if filesTotal s ! idx = - 1 then 0 else filesTotal s ! idx)\<rparr>) = Inr s1 \<and>
           queryBackend_exit s idx = Inr s' \<and>
           events s' = events s1 @ [ErrorEvent ''backendunavailable''] \<and>
           filesTotal s' ! idx = (if filesTotal s ! idx = - 1 then 0 else filesTotal s ! idx) \<and>
           filesProcessed s' ! idx = (if filesTotal s ! idx = - 1 then 0 else filesTotal s ! idx) \<and>
           last (newEvents s s') = ErrorEvent ''backendunavailable''))"
proof (intro conjI impI)
  assume "filesProcessed s ! idx = filesTotal s ! idx"
  then show "queryBackend_exit s idx = Inr s"
    using i1 i2 by (simp add: queryBackend_exit_def)
next
  assume ne: "filesProcessed s ! idx \<noteq> filesTotal s ! idx"
  define t where "t = (if filesTotal s ! idx = - 1 then 0 else filesTotal s ! idx)"
  define p where "p = zeroResult\<lparr>Type := ''progress'', FilesProcessed := t, FilesTotal := t\<rparr>"
  obtain s1 where sp: "storeProgress s idx p = Inr s1"
    and ft: "filesTotal s1 = (filesTotal s)[idx := FilesTotal p]"
    and fp: "filesProcessed s1 = (filesProcessed s)[idx := FilesProcessed p]"
    and ev: "events s1 = events s @ newEvents s s1"
    using storeProgress_counters [OF i1 i2 rng, of p] by blast
  let ?s' = "addEventMarshal (ErrorEvent ''backendunavailable'') s1"
  have ex: "queryBackend_exit s idx = Inr ?s'"
    using i1 i2 ne sp by (simp add: queryBackend_exit_def Let_def t_def p_def)
  have e': "events ?s' = events s1 @ [ErrorEvent ''backendunavailable'']"
    by (simp add: addEventMarshal_def)
  have "events ?s' = events s @ (newEvents s s1 @ [ErrorEvent ''backendunavailable''])"
    unfolding e' by (subst ev) simp
  then have "newEvents s ?s' = newEvents s s1 @ [ErrorEvent ''backendunavailable'']"
    by (simp add: newEvents_def)
  then have l: "last (newEvents s ?s') = ErrorEvent ''backendunavailable''" by simp
  have c1: "filesTotal ?s' ! idx = t"
    using i1 by (simp add: addEventMarshal_def ft p_def)
  have c2: "filesProcessed ?s' ! idx = t"
    using i2 by (simp add: addEventMarshal_def fp p_def)
  show "\<exists>s1 s'. storeProgress s idx
                   (zeroResult\<lparr>Type := ''progress'',
                      FilesProcessed := (if filesTotal s ! idx = - 1 then 0 else filesTotal s ! idx),
                      FilesTotal := (if filesTotal s ! idx = - 1 then 0 else filesTotal s ! idx)\<rparr>) = Inr s1 \<and>
           queryBackend_exit s idx = Inr s' \<and>
           events s' = events s1 @ [ErrorEvent ''backendunavailable''] \<and>
           filesTotal s' ! idx = (if filesTotal s ! idx = - 1 then 0 else filesTotal s ! idx) \<and>
           filesProcessed s' ! idx = (if filesTotal s ! idx = - 1 then 0 else filesTotal s ! idx) \<and>
           last (newEvents s s') = ErrorEvent ''backendunavailable''"
    using sp ex e' c1 c2 l unfolding p_def t_def
    by (intro exI [of _ s1] exI [of _ ?s'] conjI)
qed

lemma queryBackend_exit_state:
  "queryBackend enc s idx c = Inr s' \<Longrightarrow>
   \<exists>sx. (case c of Connected rs \<Rightarrow> receive enc s idx rs | _ \<Rightarrow> Inr s) = Inr sx \<and>
        queryBackend_exit sx idx = Inr s'"
  by (auto simp: queryBackend_def split: sum.splits)

theorem queryBackend_exit_unavailable_witness:
  "0 < length (filesTotal (newQueryState 1)) \<and> 0 < length (filesProcessed (newQueryState 1)) \<and>
   list_all (\<lambda>q. backendidx q < length (tempFiles (newQueryState 1)))
     (resultPointers (newQueryState 1)) \<and>
   filesProcessed (newQueryState 1) ! 0 \<noteq> filesTotal (newQueryState 1) ! 0 \<and>
   (\<exists>s'. queryBackend_exit (newQueryState 1) 0 = Inr s' \<and>
      filesTotal s' ! 0 = 0 \<and> filesProcessed s' ! 0 = 0 \<and>
      last (newEvents (newQueryState 1) s') = ErrorEvent ''backendunavailable'') \<and>
   filesProcessed oneReported ! 1 = filesTotal oneReported ! 1 \<and>
   queryBackend_exit oneReported 1 = Inr oneReported"
proof -
  have i1: "0 < length (filesTotal (newQueryState 1))"
    and i2: "0 < length (filesProcessed (newQueryState 1))"
    and rng: "\<forall>q \<in> set (resultPointers (newQueryState 1)).
               backendidx q < length (tempFiles (newQueryState 1))"
    and ne: "filesProcessed (newQueryState 1) ! 0 \<noteq> filesTotal (newQueryState 1) ! 0"
    and ft: "filesTotal (newQueryState 1) ! 0 = - 1"
    by (simp_all add: newQueryState_def)
  have a: "\<exists>s'. queryBackend_exit (newQueryState 1) 0 = Inr s' \<and>
      filesTotal s' ! 0 = 0 \<and> filesProcessed s' ! 0 = 0 \<and>
      last (newEvents (newQueryState 1) s') = ErrorEvent ''backendunavailable''"
  proof -
    obtain s' where "queryBackend_exit (newQueryState 1) 0 = Inr s'"
      and "filesTotal s' ! 0 =
             (if filesTotal (newQueryState 1) ! 0 = - 1 then 0 else filesTotal (newQueryState 1) ! 0)"
      and "filesProcessed s' ! 0 =
             (if filesTotal (newQueryState 1) ! 0 = - 1 then 0 else filesTotal (newQueryState 1) ! 0)"
      and "last (newEvents (newQueryState 1) s') = ErrorEvent ''backendunavailable''"
      using queryBackend_exit_unavailable [OF i1 i2 rng] ne by blast
    then show ?thesis unfolding ft by (intro exI [of _ s']) simp
  qed
  have j1: "1 < length (filesTotal oneReported)"
    and j2: "1 < length (filesProcessed oneReported)"
    and rng2: "\<forall>q \<in> set (resultPointers oneReported). backendidx q < length (tempFiles oneReported)"
    and eq: "filesProcessed oneReported ! 1 = filesTotal oneReported ! 1"
    by (simp_all add: oneReported_def newQueryState_def)
  have b: "queryBackend_exit oneReported 1 = Inr oneReported"
    using queryBackend_exit_unavailable [OF j1 j2 rng2] eq by blast
  have r: "list_all (\<lambda>q. backendidx q < length (tempFiles (newQueryState 1)))
     (resultPointers (newQueryState 1))"
    using rng by (simp add: list_all_iff)
  show ?thesis using i1 i2 r ne a eq b by (intro conjI)
qed

subsection \<open>Per-package pages\<close>

lemma sortBy_Cons: "sortBy lt (x # xs) = insertBy lt x (sortBy lt xs)"
  by (simp add: sortBy_def)

lemma sortBy_Nil: "sortBy lt [] = []"
  by (simp add: sortBy_def)

lemma afterOneResult_eq:
  "storeResult encLen (newQueryState 1) 0 (aResult ''pkgX_foo.c'' (4 / 5) (1 / 2)) =
     Inr ((newQueryState 1)\<lparr>
       events := [ResultEvent (zeroResult\<lparr>Type := ''result'', Path := ''pkgX_foo.c'',
                    PathRank := 4 / 5, Ranking := 1 / 2, Package := ''pkgX''\<rparr>)],
       results := zeroResult\<lparr>Type := ''result'', Path := ''pkgX_foo.c'',
                    PathRank := 4 / 5, Ranking := 1 / 2, Package := ''pkgX''\<rparr> #
                  replicate 9 zeroResult,
       FirstPathRank := 4 / 5,
       tempFiles := [\<lparr>closed = False, fsize = 110\<rparr>],
       resultPointers := [\<lparr>backendidx = 0, ranking = 1 / 2, offset = 0, lengthB = 110,
          pathHash = fnv64 ''pkgX_foo.c'', packageName = ''pkgX''\<rparr>],
       allPackages := [''pkgX''],
       numResults := 1\<rparr>)"
  by (simp add: storeResult_unfold combine_def top10_def spool_def newQueryState_def
      aResult_def zeroResult_def addEventMarshal_def encLen_def Let_def
      sortBy_Cons sortBy_Nil ByRanking_Less_def numeral_eq_Suc)


lemma afterOneResult_fields:
  "doneFlag afterOneResult = False"
  "filesTotal afterOneResult = [- 1]"
  "filesProcessed afterOneResult = [0]"
  "allPackages afterOneResult = [''pkgX'']"
  "tempFiles afterOneResult = [\<lparr>closed = False, fsize = 110\<rparr>]"
  "resultPointers afterOneResult = [\<lparr>backendidx = 0, ranking = 1 / 2, offset = 0, lengthB = 110,
          pathHash = fnv64 ''pkgX_foo.c'', packageName = ''pkgX''\<rparr>]"
  "dir afterOneResult = []"
  unfolding afterOneResult_def afterOneResult_eq by (simp_all add: newQueryState_def)

lemma cancelled_fields:
  "doneFlag (cancelQuery afterOneResult)"
  "filesTotal (cancelQuery afterOneResult) = [- 1]"
  "filesProcessed (cancelQuery afterOneResult) = [0]"
  "allPackages (cancelQuery afterOneResult) = [''pkgX'']"
  "tempFiles (cancelQuery afterOneResult) = [\<lparr>closed = True, fsize = 110\<rparr>]"
  "resultPointers (cancelQuery afterOneResult) = [\<lparr>backendidx = 0, ranking = 1 / 2, offset = 0,
          lengthB = 110, pathHash = fnv64 ''pkgX_foo.c'', packageName = ''pkgX''\<rparr>]"
  "dir (cancelQuery afterOneResult) = []"
  by (simp_all add: cancelQuery_def finishQuery_def addEvent_empty_def addEventMarshal_def
      afterOneResult_fields)

lemma writeToDisk_closed:
  assumes "resultPointers s = [p]" and "backendidx p = 0"
    and "tempFiles s = [\<lparr>closed = True, fsize = n\<rparr>]"
  shows "\<exists>s'. writeToDisk s = Inr (Some ErrClosed, s') \<and>
        allPackagesSorted s' = allPackages s \<and> doneFlag s' = doneFlag s \<and>
        events s' = events s \<and>
        dir s' = (Page 0, PointerFile [] False) # (PackagesJson, PackagesFile (allPackages s)) # dir s"
  using assms
  by (simp add: writeToDisk_def Let_def sortBy_Cons sortBy_Nil
      resultsPerPage_def pageCount_div writePages.simps createFromPointers_def)

lemma afterCancel_run:
  "queryBackend encLen (cancelQuery afterOneResult) 0 (Connected []) = Inr afterCancel \<and>
   doneFlag afterCancel \<and> allPackagesSorted afterCancel = [''pkgX''] \<and>
   dir afterCancel = [(Page 0, PointerFile [] False), (PackagesJson, PackagesFile [''pkgX''])]"
proof -
  define c where "c = cancelQuery afterOneResult"
  define s2 where "s2 = c\<lparr>filesTotal := [0], filesProcessed := [0]\<rparr>"
  have s2f: "resultPointers s2 = [\<lparr>backendidx = 0, ranking = 1 / 2, offset = 0,
          lengthB = 110, pathHash = fnv64 ''pkgX_foo.c'', packageName = ''pkgX''\<rparr>]"
    "tempFiles s2 = [\<lparr>closed = True, fsize = 110\<rparr>]" "allPackages s2 = [''pkgX'']"
    "dir s2 = []" "doneFlag s2" "filesTotal s2 = [0]" "filesProcessed s2 = [0]"
    by (simp_all add: s2_def c_def cancelled_fields)
  obtain s3 where w: "writeToDisk s2 = Inr (Some ErrClosed, s3)"
    and f3: "allPackagesSorted s3 = [''pkgX'']"
      "dir s3 = [(Page 0, PointerFile [] False), (PackagesJson, PackagesFile [''pkgX''])]"
    using writeToDisk_closed [OF s2f(1) _ s2f(2)] by (auto simp: s2f)
  define pe where "pe = ProgressEvent ''progress'' 0 0 (numResults c)"
  define s' where "s' = addEventMarshal (ErrorEvent ''backendunavailable'')
                          (finishQuery (addEventMarshal pe (failQuery s3)))"
  have sp: "storeProgress c 0 (zeroResult\<lparr>Type := ''progress'', FilesProcessed := 0, FilesTotal := 0\<rparr>)
              = Inr (finishQuery (addEventMarshal pe (failQuery s3)))"
    using w
    by (simp add: storeProgress_def Let_def allSet_def sumInts_def persist_def pe_def
        c_def cancelled_fields s2_def [unfolded c_def, symmetric] s2f)
  have q: "queryBackend encLen c 0 (Connected []) = Inr s'"
    using sp by (simp add: queryBackend_def queryBackend_exit_def Let_def s'_def
        c_def cancelled_fields)
  then have "afterCancel = s'" by (simp add: afterCancel_def c_def)
  moreover have "doneFlag s'" "allPackagesSorted s' = [''pkgX'']"
    "dir s' = [(Page 0, PointerFile [] False), (PackagesJson, PackagesFile [''pkgX''])]"
    using f3 by (simp_all add: s'_def failQuery_def finishQuery_def addEvent_empty_def
        addEventMarshal_def)
  ultimately show ?thesis using q by (simp add: c_def)
qed

text \<open>
  Claim C9 does not hold as stated. A backend stores one result, the query is cancelled
  (\<^verbatim>\<open>finishQuery\<close> closes the temp files), and the worker's exit completes the query:
  \<^verbatim>\<open>writeToDisk\<close> freezes the package list and then fails on the closed temp file,
  before any package file is written. The query is done and page 0 lies below the
  page count 1, yet the fetch of page 0 is answered by an internal server error:
  neither the 404, nor the error of an unfinished query, nor a JSON array.
\<close>

theorem cancelled_query_page_fetch_fails:
  "storeResult encLen (newQueryState 1) 0 (aResult ''pkgX_foo.c'' (4 / 5) (1 / 2)) =
     Inr afterOneResult \<and>
   queryBackend encLen (cancelQuery afterOneResult) 0 (Connected []) = Inr afterCancel \<and>
   doneFlag afterCancel \<and>
   allPackagesSorted afterCancel = [''pkgX''] \<and>
   (0::nat) < nat \<lceil>(of_nat (length (allPackagesSorted afterCancel)) :: rat) / 5\<rceil> \<and>
   PerPackageResultsHandler (Some afterCancel) [] 0 =
     Inr (InternalServerError ''Could not open pkg_pkgX.json'')"
proof -
  have a: "storeResult encLen (newQueryState 1) 0 (aResult ''pkgX_foo.c'' (4 / 5) (1 / 2)) =
     Inr afterOneResult"
    unfolding afterOneResult_def afterOneResult_eq by simp
  have pc: "pageCount (Suc 0) 5 = Suc 0" by (simp add: pageCount_5)
  have h: "PerPackageResultsHandler (Some afterCancel) [] 0 =
     Inr (InternalServerError ''Could not open pkg_pkgX.json'')"
    using afterCancel_run
    by (simp add: PerPackageResultsHandler_def servePage_def awaited_def Let_def
        packagesPerPage_def pc)
  have "(0::nat) < nat \<lceil>(of_nat (length (allPackagesSorted afterCancel)) :: rat) / 5\<rceil>"
    using afterCancel_run pc by (simp add: pageCount_def)
  then show ?thesis using a h afterCancel_run by (intro conjI) simp_all
qed

lemma doneFlag_awaitDone:
  "doneFlag (awaitDone s0 polls) \<longleftrightarrow> doneFlag s0 \<or> (\<exists>q \<in> set polls. doneFlag q)"
  by (induction polls) auto

lemma doneFlag_awaited:
  "doneFlag (awaited s0 polls) \<longleftrightarrow> doneFlag s0 \<or> (\<exists>q \<in> set polls. doneFlag q)"
  by (auto simp: awaited_def doneFlag_awaitDone)

lemma readPkgs_ok:
  "\<forall>pkg \<in> set ps. map_of d (Pkg pkg) \<noteq> None \<Longrightarrow>
   readPkgs d ps = Inr (map (\<lambda>pkg. (pkg, the (map_of d (Pkg pkg)))) ps)"
  by (induction ps) auto

lemma readPkgs_Inr:
  "readPkgs d ps = Inr es \<Longrightarrow> \<forall>pkg \<in> set ps. map_of d (Pkg pkg) \<noteq> None"
  by (induction ps arbitrary: es) (auto split: option.splits sum.splits)

lemma readPkgs_fail:
  assumes "\<exists>pkg \<in> set ps. map_of d (Pkg pkg) = None"
  shows "\<exists>e. readPkgs d ps = Inl e"
proof (cases "readPkgs d ps")
  case (Inl e)
  then show ?thesis by blast
next
  case (Inr es)
  then show ?thesis using readPkgs_Inr assms by blast
qed

lemma handler_slice:
  "take ((if (pagenr + 1) * 5 > length l then length l else (pagenr + 1) * 5) - pagenr * 5)
     (drop (pagenr * 5) l) = take 5 (drop (pagenr * 5) l)"
  by auto

lemma handler_unfold:
  "servePage (Some s0) polls pagenr =
     (if \<not> doneFlag (awaited s0 polls) then InternalServerError ''Query not finished yet.''
      else if pagenr \<ge> pageCount (length (allPackagesSorted (awaited s0 polls))) 5
      then NotFound ''No such page.''
      else case readPkgs (dir (awaited s0 polls))
                  (take 5 (drop (pagenr * 5) (allPackagesSorted (awaited s0 polls)))) of
             Inl e \<Rightarrow> InternalServerError e
           | Inr es \<Rightarrow> OK es)"
  unfolding servePage_def Let_def packagesPerPage_def
  by (simp only: option.case handler_slice)

text \<open>
  Claim C9, as amended. For a known query and a page number that fits \<^verbatim>\<open>int\<close>, the
  handler answers in this order. When the query is not done, neither at once nor at
  any of the polls of the 60 second wait, the answer is the internal server error of
  an unfinished query. Otherwise, with the package list of the state it then holds: a
  page number that is at least the page count, the ceiling of the number of packages
  divided by 5, is answered by 404; a page whose packages all have their file is
  answered by the array of at most 5 entries, one for each package in the positions
  from 5 times the page number on, each with the content of the package's file; and
  a page with a package whose file cannot be opened is answered by an internal server
  error. A page number beyond the range of \<^verbatim>\<open>int\<close> ends the process without a
  response.
\<close>

theorem PerPackageResultsHandler_responses:
  "(pagenr > maxInt \<longrightarrow> PerPackageResultsHandler (Some s0) polls pagenr = Inl LogFatal) \<and>
   (pagenr \<le> maxInt \<longrightarrow>
     (\<not> doneFlag (awaited s0 polls) \<longleftrightarrow> \<not> doneFlag s0 \<and> (\<forall>q \<in> set polls. \<not> doneFlag q)) \<and>
     (\<not> doneFlag (awaited s0 polls) \<longrightarrow>
        PerPackageResultsHandler (Some s0) polls pagenr =
          Inr (InternalServerError ''Query not finished yet.'')) \<and>
     (doneFlag (awaited s0 polls) \<and>
      pagenr \<ge> nat \<lceil>(of_nat (length (allPackagesSorted (awaited s0 polls))) :: rat) / 5\<rceil> \<longrightarrow>
        PerPackageResultsHandler (Some s0) polls pagenr = Inr (NotFound ''No such page.'')) \<and>
     (doneFlag (awaited s0 polls) \<and>
      pagenr < nat \<lceil>(of_nat (length (allPackagesSorted (awaited s0 polls))) :: rat) / 5\<rceil> \<and>
      (\<exists>pkg \<in> set (take 5 (drop (pagenr * 5) (allPackagesSorted (awaited s0 polls)))).
          map_of (dir (awaited s0 polls)) (Pkg pkg) = None) \<longrightarrow>
        (\<exists>msg. PerPackageResultsHandler (Some s0) polls pagenr =
                 Inr (InternalServerError msg))) \<and>
     (doneFlag (awaited s0 polls) \<and>
      pagenr < nat \<lceil>(of_nat (length (allPackagesSorted (awaited s0 polls))) :: rat) / 5\<rceil> \<and>
      (\<forall>pkg \<in> set (take 5 (drop (pagenr * 5) (allPackagesSorted (awaited s0 polls)))).
          map_of (dir (awaited s0 polls)) (Pkg pkg) \<noteq> None) \<longrightarrow>
        (\<exists>es. PerPackageResultsHandler (Some s0) polls pagenr = Inr (OK es) \<and>
           length es \<le> 5 \<and>
           map fst es = take 5 (drop (pagenr * 5) (allPackagesSorted (awaited s0 polls))) \<and>
           (\<forall>e \<in> set es. map_of (dir (awaited s0 polls)) (Pkg (fst e)) = Some (snd e)))))"
proof (intro conjI impI)
  assume "pagenr > maxInt"
  then show "PerPackageResultsHandler (Some s0) polls pagenr = Inl LogFatal"
    by (simp add: PerPackageResultsHandler_def)
next
  let ?s = "awaited s0 polls"
  show "\<not> doneFlag ?s \<longleftrightarrow> \<not> doneFlag s0 \<and> (\<forall>q \<in> set polls. \<not> doneFlag q)"
    by (simp add: doneFlag_awaited)
next
  let ?s = "awaited s0 polls"
  assume "pagenr \<le> maxInt" and "\<not> doneFlag ?s"
  then show "PerPackageResultsHandler (Some s0) polls pagenr =
          Inr (InternalServerError ''Query not finished yet.'')"
    by (simp add: PerPackageResultsHandler_def handler_unfold)
next
  let ?s = "awaited s0 polls"
  assume "pagenr \<le> maxInt"
    and "doneFlag ?s \<and>
      pagenr \<ge> nat \<lceil>(of_nat (length (allPackagesSorted ?s)) :: rat) / 5\<rceil>"
  then show "PerPackageResultsHandler (Some s0) polls pagenr = Inr (NotFound ''No such page.'')"
    by (simp add: PerPackageResultsHandler_def handler_unfold pageCount_def)
next
  let ?s = "awaited s0 polls"
  let ?page = "take 5 (drop (pagenr * 5) (allPackagesSorted ?s))"
  assume fits: "pagenr \<le> maxInt"
    and h: "doneFlag ?s \<and>
      pagenr < nat \<lceil>(of_nat (length (allPackagesSorted ?s)) :: rat) / 5\<rceil> \<and>
      (\<exists>pkg \<in> set ?page. map_of (dir ?s) (Pkg pkg) = None)"
  then have "\<exists>pkg \<in> set ?page. map_of (dir ?s) (Pkg pkg) = None" by blast
  then obtain e where "readPkgs (dir ?s) ?page = Inl e"
    using readPkgs_fail by blast
  then have "PerPackageResultsHandler (Some s0) polls pagenr = Inr (InternalServerError e)"
    using fits h by (simp add: PerPackageResultsHandler_def handler_unfold pageCount_def)
  then show "\<exists>msg. PerPackageResultsHandler (Some s0) polls pagenr =
                 Inr (InternalServerError msg)"
    by blast
next
  let ?s = "awaited s0 polls"
  let ?page = "take 5 (drop (pagenr * 5) (allPackagesSorted ?s))"
  let ?es = "map (\<lambda>pkg. (pkg, the (map_of (dir ?s) (Pkg pkg)))) ?page"
  assume fits: "pagenr \<le> maxInt"
    and h: "doneFlag ?s \<and>
      pagenr < nat \<lceil>(of_nat (length (allPackagesSorted ?s)) :: rat) / 5\<rceil> \<and>
      (\<forall>pkg \<in> set ?page. map_of (dir ?s) (Pkg pkg) \<noteq> None)"
  have r: "readPkgs (dir ?s) ?page = Inr ?es"
    using h by (intro readPkgs_ok) blast
  have a: "PerPackageResultsHandler (Some s0) polls pagenr = Inr (OK ?es)"
    using fits h r by (simp add: PerPackageResultsHandler_def handler_unfold pageCount_def)
  have l: "length ?es \<le> 5" by simp
  have f: "map fst ?es = ?page" by (simp add: comp_def)
  have c: "\<forall>e \<in> set ?es. map_of (dir ?s) (Pkg (fst e)) = Some (snd e)"
    using h by auto
  show "\<exists>es. PerPackageResultsHandler (Some s0) polls pagenr = Inr (OK es) \<and>
           length es \<le> 5 \<and> map fst es = ?page \<and>
           (\<forall>e \<in> set es. map_of (dir ?s) (Pkg (fst e)) = Some (snd e))"
    using a l f c by blast
qed

lemma afterCompletion_run:
  "storeProgress afterOneResult 0 (aProgress 5 5) = Inr afterCompletion \<and>
   doneFlag afterCompletion \<and> allPackagesSorted afterCompletion = [''pkgX''] \<and>
   map_of (dir afterCompletion) (Pkg ''pkgX'') =
     Some (PointerFile [\<lparr>backendidx = 0, ranking = 1 / 2, offset = 0, lengthB = 110,
          pathHash = fnv64 ''pkgX_foo.c'', packageName = ''pkgX''\<rparr>] True)"
proof -
  define s2 where "s2 = afterOneResult\<lparr>filesTotal := [5], filesProcessed := [5]\<rparr>"
  have s2f: "resultPointers s2 = [\<lparr>backendidx = 0, ranking = 1 / 2, offset = 0,
          lengthB = 110, pathHash = fnv64 ''pkgX_foo.c'', packageName = ''pkgX''\<rparr>]"
    "tempFiles s2 = [\<lparr>closed = False, fsize = 110\<rparr>]" "allPackages s2 = [''pkgX'']"
    "dir s2 = []" "filesTotal s2 = [5]" "filesProcessed s2 = [5]"
    by (simp_all add: s2_def afterOneResult_fields)
  obtain s3 where w: "writeToDisk s2 = Inr (None, s3)"
    and f3: "allPackagesSorted s3 = [''pkgX'']"
      "map_of (dir s3) (Pkg ''pkgX'') =
         Some (PointerFile [\<lparr>backendidx = 0, ranking = 1 / 2, offset = 0, lengthB = 110,
           pathHash = fnv64 ''pkgX_foo.c'', packageName = ''pkgX''\<rparr>] True)"
    by (simp add: writeToDisk_def Let_def s2f sortBy_Cons sortBy_Nil resultsPerPage_def
        resultsPerPackage_def pageCount_div writePages.simps createFromPointers_def
        bypkgOf_def sendPaginationUpdate_def addEventMarshal_def)
  define pe where "pe = ProgressEvent ''progress'' 5 5 (numResults afterOneResult)"
  define s' where "s' = finishQuery (addEventMarshal pe s3)"
  have sp: "storeProgress afterOneResult 0 (aProgress 5 5) = Inr s'"
    using w
    by (simp add: storeProgress_def Let_def allSet_def sumInts_def persist_def pe_def s'_def
        aProgress_def afterOneResult_fields s2_def [symmetric] s2f)
  then have "afterCompletion = s'" by (simp add: afterCompletion_def)
  moreover have "doneFlag s'" "allPackagesSorted s' = [''pkgX'']"
    "map_of (dir s') (Pkg ''pkgX'') =
         Some (PointerFile [\<lparr>backendidx = 0, ranking = 1 / 2, offset = 0, lengthB = 110,
           pathHash = fnv64 ''pkgX_foo.c'', packageName = ''pkgX''\<rparr>] True)"
    using f3 by (simp_all add: s'_def finishQuery_def addEvent_empty_def addEventMarshal_def)
  ultimately show ?thesis using sp by simp
qed

theorem PerPackageResultsHandler_responses_witness:
  "(0::nat) \<le> maxInt \<and> (1::nat) \<le> maxInt \<and> (2::nat) ^ 63 > maxInt \<and>
   PerPackageResultsHandler (Some afterCompletion) [] (2 ^ 63) = Inl LogFatal \<and>
   \<not> doneFlag (awaited afterOneResult [afterOneResult]) \<and>
   PerPackageResultsHandler (Some afterOneResult) [afterOneResult] 0 =
     Inr (InternalServerError ''Query not finished yet.'') \<and>
   doneFlag (awaited afterOneResult [afterOneResult, afterCompletion]) \<and>
   PerPackageResultsHandler (Some afterOneResult) [afterOneResult, afterCompletion] 1 =
     Inr (NotFound ''No such page.'') \<and>
   (\<exists>es. PerPackageResultsHandler (Some afterOneResult) [afterOneResult, afterCompletion] 0 =
           Inr (OK es) \<and>
      map fst es = [''pkgX'']) \<and>
   doneFlag (awaited afterCancel []) \<and>
   (\<exists>msg. PerPackageResultsHandler (Some afterCancel) [] 0 = Inr (InternalServerError msg))"
proof -
  have m0: "(0::nat) \<le> maxInt" and m1: "(1::nat) \<le> maxInt" and m2: "(2::nat) ^ 63 > maxInt"
    by (simp_all add: maxInt_def)
  have f: "PerPackageResultsHandler (Some afterCompletion) [] (2 ^ 63) = Inl LogFatal"
    using PerPackageResultsHandler_responses [of "2 ^ 63" afterCompletion "[]"] m2 by blast
  have nd: "\<not> doneFlag (awaited afterOneResult [afterOneResult])"
    by (simp add: awaited_def afterOneResult_fields)
  have a: "PerPackageResultsHandler (Some afterOneResult) [afterOneResult] 0 =
     Inr (InternalServerError ''Query not finished yet.'')"
    using PerPackageResultsHandler_responses [of 0 afterOneResult "[afterOneResult]"] nd m0
    by blast
  have aw: "awaited afterOneResult [afterOneResult, afterCompletion] = afterCompletion"
    using afterCompletion_run by (simp add: awaited_def afterOneResult_fields)
  have d: "doneFlag (awaited afterOneResult [afterOneResult, afterCompletion])"
    using afterCompletion_run by (simp add: aw)
  have pc: "nat \<lceil>(of_nat (length (allPackagesSorted afterCompletion)) :: rat) / 5\<rceil> = 1"
    using afterCompletion_run pageCount_5 [of 1] by (simp add: pageCount_def)
  have pg: "take 5 (drop (0 * 5) (allPackagesSorted afterCompletion)) = [''pkgX'']"
    using afterCompletion_run by simp
  have b: "PerPackageResultsHandler (Some afterOneResult) [afterOneResult, afterCompletion] 1 =
     Inr (NotFound ''No such page.'')"
    using PerPackageResultsHandler_responses [of 1 afterOneResult "[afterOneResult, afterCompletion]"]
      d pc m1 unfolding aw by simp
  have "\<forall>pkg \<in> set (take 5 (drop (0 * 5) (allPackagesSorted afterCompletion))).
          map_of (dir afterCompletion) (Pkg pkg) \<noteq> None"
    unfolding pg using afterCompletion_run by simp
  then have "\<exists>es. PerPackageResultsHandler (Some afterOneResult) [afterOneResult, afterCompletion] 0 =
           Inr (OK es) \<and>
      map fst es = take 5 (drop (0 * 5) (allPackagesSorted afterCompletion))"
    using PerPackageResultsHandler_responses [of 0 afterOneResult "[afterOneResult, afterCompletion]"]
      d pc m0 unfolding aw by auto
  then have c: "\<exists>es. PerPackageResultsHandler (Some afterOneResult) [afterOneResult, afterCompletion] 0 =
           Inr (OK es) \<and>
      map fst es = [''pkgX'']"
    unfolding pg .
  have awc: "awaited afterCancel [] = afterCancel" by (simp add: awaited_def)
  have dc: "doneFlag (awaited afterCancel [])" using afterCancel_run by (simp add: awc)
  have pcc: "nat \<lceil>(of_nat (length (allPackagesSorted afterCancel)) :: rat) / 5\<rceil> = 1"
    using afterCancel_run pageCount_5 [of 1] by (simp add: pageCount_def)
  have "\<exists>pkg \<in> set (take 5 (drop (0 * 5) (allPackagesSorted afterCancel))).
          map_of (dir afterCancel) (Pkg pkg) = None"
    using afterCancel_run by simp
  then have e: "\<exists>msg. PerPackageResultsHandler (Some afterCancel) [] 0 =
                 Inr (InternalServerError msg)"
    using PerPackageResultsHandler_responses [of 0 afterCancel "[]"] dc pcc m0
    unfolding awc by auto
  show ?thesis using m0 m1 m2 f nd a d b c dc e by (intro conjI)
qed

subsection \<open>Writes after the query is done\<close>




subsection \<open>The top-10 array and the reference value\<close>

text \<open>
  Claim C1, at an input where the code departs from it. Eleven results arrive from one
  backend, each stored with the combined ranking 1; the last has the greatest path, so
  it is the first of the best ten under \<^verbatim>\<open>ByRanking\<close>. The array keeps the ten earlier
  results: the guard \<^verbatim>\<open>result.Ranking > worst.Ranking\<close> is strict, and a result that
  ties with the tenth on the ranking and beats it on the path is not entered.
\<close>

theorem tie_at_the_boundary:
  "map_sum id (map (\<lambda>r. (Ranking r, Path r)) \<circ> results)
     (storeResults encLen (newQueryState 1) 0 elevenTied) = Inr (replicate 10 (1, ''a_f'')) \<and>
   map_sum id (map ranking \<circ> resultPointers)
     (storeResults encLen (newQueryState 1) 0 elevenTied) = Inr (replicate 11 1) \<and>
   map (\<lambda>r. (Ranking r, Path r))
     (bestTen (replicate 10 (aResult ''a_f'' 1 1) @ [aResult ''b_f'' 1 1])) =
     (1, ''b_f'') # replicate 9 (1, ''a_f'')"
  by code_simp

text \<open>
  Claim C3, at an input where the code departs from it. The first result has the
  pre-rank 4/5 and the post-rank 0. Its ranking does not exceed that of the empty
  tenth slot, so the local copy of the state that holds the new reference value is
  never written back: the reference value is still 0 after the call, and it is the
  second result that seeds it, from its own pre-rank 1/2, and keeps its raw post-rank.
\<close>

theorem first_result_not_seeding:
  "map_sum id FirstPathRank
     (storeResult encLen (newQueryState 1) 0 (aResult ''pkgX_foo.c'' (4 / 5) 0)) = Inr 0 \<and>
   map_sum id FirstPathRank
     (storeResults encLen (newQueryState 1) 0
        [aResult ''pkgX_foo.c'' (4 / 5) 0, aResult ''pkgX_bar.c'' (1 / 2) (9 / 10)]) = Inr (1 / 2) \<and>
   map_sum id (map ranking \<circ> resultPointers)
     (storeResults encLen (newQueryState 1) 0
        [aResult ''pkgX_foo.c'' (4 / 5) 0, aResult ''pkgX_bar.c'' (1 / 2) (9 / 10)]) = Inr [0, 9 / 10]"
  by code_simp

text \<open>
  The example of the specification: when the first result enters the array, it seeds the
  reference value 4/5, and the second result is ranked 4/5 + (4/5 * 1/10) * 9/10 =
  0.872, above the first. A result stored while the reference value is positive gets
  the combined ranking.
\<close>

lemma spec_example:
  "map_sum id FirstPathRank
     (storeResults encLen (newQueryState 1) 0
        [aResult ''pkgX_foo.c'' (4 / 5) (1 / 2), aResult ''pkgX_bar.c'' (4 / 5) (9 / 10)]) = Inr (4 / 5) \<and>
   map_sum id (map ranking \<circ> resultPointers)
     (storeResults encLen (newQueryState 1) 0
        [aResult ''pkgX_foo.c'' (4 / 5) (1 / 2), aResult ''pkgX_bar.c'' (4 / 5) (9 / 10)]) =
     Inr [1 / 2, 872 / 1000] \<and>
   map_sum id (map Path \<circ> take 2 \<circ> results)
     (storeResults encLen (newQueryState 1) 0
        [aResult ''pkgX_foo.c'' (4 / 5) (1 / 2), aResult ''pkgX_bar.c'' (4 / 5) (9 / 10)]) =
     Inr [''pkgX_bar.c'', ''pkgX_foo.c'']"
  by code_simp

lemma combined_ranking:
  assumes "FirstPathRank s > 0" and "CHR ''_'' \<in> set (Path r)"
    and "idx < length (tempFiles s)" and "\<not> closed (tempFiles s ! idx)"
  shows "\<exists>s'. storeResult enc s idx r = Inr s' \<and>
     ranking (last (resultPointers s')) =
       PathRank r + (FirstPathRank s * (1 / 10)) * Ranking r \<and>
     FirstPathRank s' = FirstPathRank s"
  using assms
  by (simp add: storeResult_unfold strings_Index_neg combine_def top10_def spool_def Let_def
      addEventMarshal_def)

end
